theory Spec2Isabelle
  imports Main "HOL-Library.Multiset" "HOL-Library.AList"
begin

section \<open>Sender extraction: \<open>extractEmail\<close>\<close>

text \<open>
  Go strings are byte sequences, and \<open>strings.LastIndex\<close> and the slice expression
  \<open>from[start+1 : end]\<close> both count bytes; a \<open>string\<close> of HOL is a list of 8-bit
  characters, so indices agree. The needles \<open><\<close> and \<open>>\<close> are single bytes.

  \<open>strings.LastIndex(s, c)\<close> for a one-byte needle scans from the end and returns the
  index of the last occurrence, or \<open>-1\<close>.
\<close>

primrec LastIndex :: "string \<Rightarrow> char \<Rightarrow> int" where
  "LastIndex [] c = - 1"
| "LastIndex (x # xs) c =
     (let r = LastIndex xs c
      in if 0 \<le> r then r + 1 else if x = c then 0 else - 1)"

text \<open>
  The slice \<open>s[lo:hi]\<close>. Go panics unless \<open>0 \<le> lo \<le> hi \<le> len(s)\<close>; lemma
  \<open>extractEmail_slice_in_range\<close> below shows that the only slice taken by
  \<open>extractEmail\<close> is inside these bounds.
\<close>

definition slice :: "string \<Rightarrow> int \<Rightarrow> int \<Rightarrow> string" where
  "slice s lo hi = take (nat (hi - lo)) (drop (nat lo) s)"

definition extractEmail :: "string \<Rightarrow> string" where
  "extractEmail from =
     (let start = LastIndex from (CHR ''<'');
          end = LastIndex from (CHR ''>'')
      in if 0 \<le> start \<and> start < end then slice from (start + 1) end else from)"

text \<open>
  The reading of the sender rule with the \<^emph>\<open>first\<close> \<open>>\<close> after the last \<open><\<close>:
  the text after the last \<open><\<close>, cut at its first \<open>>\<close>; the raw value when there is
  no \<open><\<close> or no \<open>>\<close> after the last one.
\<close>

primrec after_last :: "char \<Rightarrow> string \<Rightarrow> string option" where
  "after_last c [] = None"
| "after_last c (x # xs) =
     (case after_last c xs of
        Some r \<Rightarrow> Some r
      | None \<Rightarrow> if x = c then Some xs else None)"

definition first_close_rule :: "string \<Rightarrow> string" where
  "first_close_rule from =
     (case after_last (CHR ''<'') from of
        None \<Rightarrow> from
      | Some rest \<Rightarrow>
          if CHR ''>'' \<in> set rest then takeWhile (\<lambda>c. c \<noteq> CHR ''>'') rest else from)"


section \<open>The remote mailbox service and the console\<close>

text \<open>
  A Go \<open>error\<close> is represented by its description (\<open>err.Error()\<close>), which is all the
  program ever does with one (\<open>%v\<close>).
\<close>

type_synonym error = string

text \<open>The parts of the Gmail API types that the program reads.\<close>

record MessagePartHeader =
  Name :: string
  Value :: string

record MessagePart =
  Headers :: "MessagePartHeader list"

text \<open>
  \<open>Payload\<close> is a pointer field of the API's \<open>Message\<close> and is absent (\<open>nil\<close>) when the
  response carries no payload; \<open>message.Payload.Headers\<close> then panics. The field \<open>Id\<close>
  is called \<open>MsgId\<close> here (\<open>Id\<close> is the identity relation of HOL).
\<close>

record Message =
  MsgId :: string
  LabelIds :: "string list"
  Payload :: "MessagePart option"

record ListMessagesResponse =
  Messages :: "Message list"
  NextPageToken :: string

text \<open>
  The service is everything behind \<open>srv.Users.Messages\<close>: the three calls the program
  makes, each a function of the request and of the state \<open>'w\<close> of the outside world
  (the mailbox, the network, the quota), returning the response and the new state. A call
  returns either an error or a response, never both.
\<close>

record 'w gmail_service =
  List_Do :: "string \<Rightarrow> 'w \<Rightarrow> (error + ListMessagesResponse) \<times> 'w"
  Get_Do :: "string \<Rightarrow> 'w \<Rightarrow> (error + Message) \<times> 'w"
  Trash_Do :: "string \<Rightarrow> 'w \<Rightarrow> (error + Message) \<times> 'w"

text \<open>
  What a run does to its surroundings, in order: the remote calls with their responses,
  the lines written to the console, and the pauses (in milliseconds).
\<close>

datatype event =
    ListCall string "error + ListMessagesResponse"
  | GetCall string "error + Message"
  | TrashCall string "error + Message"
  | Printed string
  | Slept nat

record 'w io_state =
  world :: 'w
  trace :: "event list"

text \<open>
  How a function ends: by a run-time panic, by returning a non-nil \<open>error\<close>, or by
  returning its value with a nil \<open>error\<close>.
\<close>

datatype 'a result = Panicked | Err error | Ok 'a

abbreviation nl :: string where
  "nl \<equiv> [CHR 0x0A]"

text \<open>
  The verb \<open>%d\<close> of \<open>fmt\<close>: decimal digits, with a sign for negative numbers.
  \<open>digit\<close> is only applied to numbers below ten.
\<close>

definition digit :: "nat \<Rightarrow> char" where
  "digit d = ''0123456789'' ! d"

fun show_nat :: "nat \<Rightarrow> string" where
  "show_nat n =
     (if n < 10 then [digit n]
      else show_nat (n div 10) @ [digit (n mod 10)])"

declare show_nat.simps [simp del]

definition show_int :: "int \<Rightarrow> string" where
  "show_int i = (if i < 0 then CHR ''-'' # show_nat (nat (- i)) else show_nat (nat i))"


section \<open>The harvest: \<open>getSenderStats\<close>\<close>

text \<open>
  \<open>Count\<close> is a Go \<open>int\<close>. It is only ever incremented together with an append to
  \<open>Ids\<close>, whose length is itself an \<open>int\<close>, so it cannot wrap; it is an \<open>int\<close> of HOL.
\<close>

record SenderStats =
  Email :: string
  Count :: int
  Ids :: "string list"

text \<open>
  \<open>senderMap\<close> is a Go map from sender to \<open>*SenderStats\<close>. It is an association list
  with one entry per key: a present key is updated in place (the pointer's target is
  mutated), a new key gets a new entry. Lines 258 to 267.
\<close>

type_synonym sender_map = "(string \<times> SenderStats) list"

definition upsert :: "sender_map \<Rightarrow> string \<Rightarrow> string \<Rightarrow> sender_map" where
  "upsert senderMap email msgid =
     (case map_of senderMap email of
        Some stats \<Rightarrow>
          AList.update email (stats\<lparr>Count := Count stats + 1, Ids := Ids stats @ [msgid]\<rparr>) senderMap
      | None \<Rightarrow>
          AList.update email \<lparr>Email = email, Count = 1, Ids = [msgid]\<rparr> senderMap)"

text \<open>The loop over the headers of one message, lines 255 to 270, with its \<open>break\<close>.\<close>

fun scan_headers :: "MessagePartHeader list \<Rightarrow> sender_map \<Rightarrow> string \<Rightarrow> sender_map" where
  "scan_headers [] senderMap msgid = senderMap"
| "scan_headers (header # headers) senderMap msgid =
     (if Name header = ''From''
      then upsert senderMap (extractEmail (Value header)) msgid
      else scan_headers headers senderMap msgid)"

record 'w harvest_state = "'w io_state" +
  senderMap :: sender_map
  pageToken :: string

text \<open>
  The body of the loop over the messages of a page, lines 247 to 270: the metadata
  request, the notice and \<open>continue\<close> on an error, the headers otherwise. The
  result \<open>Inl tr\<close> is the panic of \<open>message.Payload.Headers\<close> on a nil \<open>Payload\<close>,
  with what had happened until then.
\<close>

definition process_message ::
  "'w gmail_service \<Rightarrow> Message \<Rightarrow> 'w harvest_state \<Rightarrow> event list + 'w harvest_state" where
  "process_message srv msg st =
     (case Get_Do srv (MsgId msg) (world st) of
        (Inl err, w) \<Rightarrow>
          Inr (st\<lparr>world := w,
                  trace := trace st @
                    [GetCall (MsgId msg) (Inl err),
                     Printed (''Could not get metadata for email ID '' @ MsgId msg @ '', continuing'' @ nl)]\<rparr>)
      | (Inr message, w) \<Rightarrow>
          (case Payload message of
             None \<Rightarrow> Inl (trace st @ [GetCall (MsgId msg) (Inr message)])
           | Some part \<Rightarrow>
               Inr (st\<lparr>world := w,
                       trace := trace st @ [GetCall (MsgId msg) (Inr message)],
                       senderMap := scan_headers (Headers part) (senderMap st) (MsgId msg)\<rparr>)))"

fun process_messages ::
  "'w gmail_service \<Rightarrow> Message list \<Rightarrow> 'w harvest_state \<Rightarrow> event list + 'w harvest_state" where
  "process_messages srv [] st = Inr st"
| "process_messages srv (msg # msgs) st =
     (case process_message srv msg st of
        Inl tr \<Rightarrow> Inl tr
      | Inr st' \<Rightarrow> process_messages srv msgs st')"

text \<open>
  One round of the page loop, lines 234 to 277: it either leaves the loop (the listing
  failed, a panic, or no continuation token) or goes round again with the new token.
  \<open>req.PageToken\<close> is only called for a non-empty token; the empty token stands for a
  request without one.
\<close>

datatype ('s, 'r) round = Again 's | Leave 'r

definition page_round ::
  "'w gmail_service \<Rightarrow> 'w harvest_state \<Rightarrow>
     ('w harvest_state, sender_map result \<times> event list) round" where
  "page_round srv st =
     (case List_Do srv (pageToken st) (world st) of
        (Inl err, w) \<Rightarrow> Leave (Err err, trace st @ [ListCall (pageToken st) (Inl err)])
      | (Inr r, w) \<Rightarrow>
          (case process_messages srv (Messages r)
                  (st\<lparr>world := w, trace := trace st @ [ListCall (pageToken st) (Inr r)]\<rparr>) of
             Inl tr \<Rightarrow> Leave (Panicked, tr)
           | Inr st' \<Rightarrow>
               if NextPageToken r = [] then Leave (Ok (senderMap st'), trace st')
               else Again (st'\<lparr>pageToken := NextPageToken r\<rparr>)))"

text \<open>
  The page loop has no bound of its own: a service that always hands out another token
  keeps it running. Not returning is the value \<open>None\<close>.
\<close>

partial_function (option) page_loop ::
  "'w gmail_service \<Rightarrow> 'w harvest_state \<Rightarrow> (sender_map result \<times> event list) option" where
  "page_loop srv st =
     (case page_round srv st of
        Leave r \<Rightarrow> Some r
      | Again st' \<Rightarrow> page_loop srv st')"

text \<open>
  Lines 281 to 284 copy the records out of the map with \<open>range\<close>, whose order over a map
  Go leaves unspecified and randomises. The order is chosen by an extra argument: each
  number of \<open>order\<close> is the position at which the next record is put among the
  records after it. Every arrangement of the records arises from some \<open>order\<close>
  (lemma \<open>range_order_any\<close>), and nothing else does (lemma \<open>mset_range_order\<close>).
\<close>

fun range_order :: "nat list \<Rightarrow> 'a list \<Rightarrow> 'a list" where
  "range_order ks [] = []"
| "range_order [] (x # xs) = x # xs"
| "range_order (k # ks) (x # xs) =
     (let r = range_order ks xs; i = k mod (length r + 1)
      in take i r @ x # drop i r)"

definition getSenderStats ::
  "'w gmail_service \<Rightarrow> nat list \<Rightarrow> 'w \<Rightarrow> (SenderStats list result \<times> event list) option" where
  "getSenderStats srv order w =
     (case page_loop srv \<lparr>world = w, trace = [], senderMap = [], pageToken = []\<rparr> of
        None \<Rightarrow> None
      | Some (Ok m, tr) \<Rightarrow> Some (Ok (range_order order (map snd m)), tr)
      | Some (Err e, tr) \<Rightarrow> Some (Err e, tr)
      | Some (Panicked, tr) \<Rightarrow> Some (Panicked, tr))"

declare page_loop.simps [code]

section \<open>Batch deletion: \<open>deleteEmails\<close>\<close>

text \<open>
  \<open>successCount\<close> is a Go \<open>int\<close> bounded by the length of \<open>ids\<close>; it cannot wrap and
  is never negative, so \<open>%\<close> on it is \<open>mod\<close>.
\<close>

record 'w delete_state = "'w io_state" +
  deleteErrors :: "string list"
  successCount :: int

text \<open>The loop over the labels of the returned message, lines 324 to 330.\<close>

fun isInTrash :: "string list \<Rightarrow> bool" where
  "isInTrash [] = False"
| "isInTrash (label # labels) = (if label = ''TRASH'' then True else isInTrash labels)"

text \<open>
  The body of the loop over the message IDs, lines 317 to 343. The \<open>continue\<close> of
  line 320 leaves the body before the pause of line 343.
\<close>

definition trash_one :: "'w gmail_service \<Rightarrow> string \<Rightarrow> 'w delete_state \<Rightarrow> 'w delete_state" where
  "trash_one srv msgid st =
     (case Trash_Do srv msgid (world st) of
        (Inl err, w) \<Rightarrow>
          st\<lparr>world := w,
             trace := trace st @ [TrashCall msgid (Inl err)],
             deleteErrors := deleteErrors st @ [''failed to delete message '' @ msgid @ '': '' @ err]\<rparr>
      | (Inr email, w) \<Rightarrow>
          if \<not> isInTrash (LabelIds email) then
            st\<lparr>world := w,
               trace := trace st @ [TrashCall msgid (Inr email), Slept 100],
               deleteErrors := deleteErrors st @
                 [''message '' @ msgid @ '' was not moved to trash successfully'']\<rparr>
          else
            st\<lparr>world := w,
               trace := trace st @ [TrashCall msgid (Inr email)] @
                 (if (successCount st + 1) mod 10 = 0
                  then [Printed (''Successfully deleted '' @ show_int (successCount st + 1) @ '' emails...'' @ nl)]
                  else []) @
                 [Slept 100],
               successCount := successCount st + 1\<rparr>)"

fun trash_all :: "'w gmail_service \<Rightarrow> string list \<Rightarrow> 'w delete_state \<Rightarrow> 'w delete_state" where
  "trash_all srv [] st = st"
| "trash_all srv (msgid # ids) st = trash_all srv ids (trash_one srv msgid st)"

text \<open>
  \<open>deleteEmails\<close> returns only an \<open>error\<close> (\<open>None\<close> is \<open>nil\<close>); the model returns with
  it the state at the end, so that \<open>successCount\<close>, \<open>deleteErrors\<close> and the trace can be
  spoken about. Lines 346 to 359 print the summary.
\<close>

definition deleteEmails ::
  "'w gmail_service \<Rightarrow> string list \<Rightarrow> 'w \<Rightarrow> error option \<times> 'w delete_state" where
  "deleteEmails srv ids w =
     (let st = trash_all srv ids \<lparr>world = w, trace = [], deleteErrors = [], successCount = 0\<rparr>;
          summary =
            [Printed (nl @ ''Deletion Summary:'' @ nl),
             Printed (''Successfully deleted: '' @ show_int (successCount st) @ '' emails'' @ nl)]
      in if 0 < length (deleteErrors st) then
           (Some (''some deletions failed: '' @ show_int (int (length (deleteErrors st)))
                    @ '' errors occurred''),
            st\<lparr>trace := trace st @ summary @
               [Printed (''Failed to delete: '' @ show_int (int (length (deleteErrors st))) @ '' emails'' @ nl),
                Printed (''Error details:'' @ nl)] @
               map (\<lambda>errMsg. Printed (''- '' @ errMsg @ nl)) (deleteErrors st)\<rparr>)
         else (None, st\<lparr>trace := trace st @ summary\<rparr>))"

text \<open>
  The responses to the trash requests of a run, in the order of the requests: what
  the service answers when asked about each ID in turn.
\<close>

fun trash_responses :: "'w gmail_service \<Rightarrow> string list \<Rightarrow> 'w \<Rightarrow> (error + Message) list" where
  "trash_responses srv [] w = []"
| "trash_responses srv (msgid # ids) w =
     fst (Trash_Do srv msgid w) # trash_responses srv ids (snd (Trash_Do srv msgid w))"

text \<open>
  \<open>K\<close>: the attempts that failed at the remote call. \<open>J\<close>: the attempts whose call
  succeeded but whose returned labels lack \<open>TRASH\<close>.
\<close>

definition remote_failures :: "(error + Message) list \<Rightarrow> nat" where
  "remote_failures rs = length (filter (\<lambda>r. case r of Inl err \<Rightarrow> True | Inr m \<Rightarrow> False) rs)"

definition not_trashed :: "(error + Message) list \<Rightarrow> nat" where
  "not_trashed rs =
     length (filter (\<lambda>r. case r of Inl err \<Rightarrow> False | Inr m \<Rightarrow> ''TRASH'' \<notin> set (LabelIds m)) rs)"

definition pauses :: "event list \<Rightarrow> nat list" where
  "pauses tr = concat (map (\<lambda>e. case e of Slept ms \<Rightarrow> [ms] | _ \<Rightarrow> []) tr)"


section \<open>The token: \<open>getClient\<close>, \<open>tokenFromFile\<close>, \<open>saveToken\<close>\<close>

text \<open>
  What these functions call outside themselves: the file system (\<open>os.ReadFile\<close>,
  \<open>os.WriteFile\<close>), the JSON coding of a token, and \<open>getTokenFromWeb\<close>. The last one
  starts an HTTP listener in a goroutine and blocks on a wait group until the browser
  calls back; it is taken as it is seen from \<open>getClient\<close>: it may never return
  (\<open>None\<close>), and when it returns it gives an error or a token, the new state of the
  world, and what it wrote to the console. \<open>'t\<close> is \<open>oauth2.Token\<close>.
\<close>

record ('w, 't) token_env =
  ReadFile :: "string \<Rightarrow> 'w \<Rightarrow> (error + string) \<times> 'w"
  WriteFile :: "string \<Rightarrow> string \<Rightarrow> 'w \<Rightarrow> error option \<times> 'w"
  Unmarshal :: "string \<Rightarrow> error + 't"
  Marshal :: "'t \<Rightarrow> error + string"
  getTokenFromWeb :: "'w \<Rightarrow> ((error + 't) \<times> 'w \<times> event list) option"

text \<open>\<open>config.Client(ctx, tok)\<close>: the HTTP client that authenticates with \<open>tok\<close>.\<close>

datatype 't http_client = Client 't

definition tokenFromFile :: "('w, 't) token_env \<Rightarrow> string \<Rightarrow> 'w \<Rightarrow> (error + 't) \<times> 'w" where
  "tokenFromFile env file w =
     (case ReadFile env file w of
        (Inl err, w') \<Rightarrow> (Inl err, w')
      | (Inr data, w') \<Rightarrow> (Unmarshal env data, w'))"

text \<open>
  Line 185 drops the result of \<open>os.WriteFile\<close>: whether the write failed is neither
  returned nor written anywhere.
\<close>

definition saveToken :: "('w, 't) token_env \<Rightarrow> string \<Rightarrow> 't \<Rightarrow> 'w \<Rightarrow> error option \<times> 'w" where
  "saveToken env path token w =
     (case Marshal env token of
        Inl err \<Rightarrow> (Some err, w)
      | Inr data \<Rightarrow> (None, snd (WriteFile env path data w)))"

text \<open>
  \<open>getClient\<close>, lines 120 to 135; line 131 drops the result of \<open>saveToken\<close>. The third
  component is what the call wrote to the console.
\<close>

definition getClient ::
  "('w, 't) token_env \<Rightarrow> 'w \<Rightarrow> ((error + 't http_client) \<times> 'w \<times> event list) option" where
  "getClient env w =
     (case tokenFromFile env ''token.json'' w of
        (Inr tok, w1) \<Rightarrow> Some (Inr (Client tok), w1, [])
      | (Inl err, w1) \<Rightarrow>
          (case getTokenFromWeb env w1 of
             None \<Rightarrow> None
           | Some (Inl err', w2, out) \<Rightarrow> Some (Inl err', w2, out)
           | Some (Inr tok, w2, out) \<Rightarrow>
               Some (Inr (Client tok), snd (saveToken env ''token.json'' tok w2), out)))"

section \<open>Reading a run from its trace\<close>

text \<open>
  The message IDs that the successful listing calls returned, the IDs for which
  metadata was requested, and the messages whose metadata fetch succeeded, each in the
  order of the run.
\<close>

definition listed :: "event list \<Rightarrow> string list" where
  "listed tr =
     concat (map (\<lambda>e. case e of ListCall tok (Inr r) \<Rightarrow> map MsgId (Messages r) | _ \<Rightarrow> []) tr)"

definition requested :: "event list \<Rightarrow> string list" where
  "requested tr = concat (map (\<lambda>e. case e of GetCall i r \<Rightarrow> [i] | _ \<Rightarrow> []) tr)"

definition fetched :: "event list \<Rightarrow> (string \<times> Message) list" where
  "fetched tr = concat (map (\<lambda>e. case e of GetCall i (Inr m) \<Rightarrow> [(i, m)] | _ \<Rightarrow> []) tr)"

definition page_requests :: "event list \<Rightarrow> string list" where
  "page_requests tr = concat (map (\<lambda>e. case e of ListCall tok r \<Rightarrow> [tok] | _ \<Rightarrow> []) tr)"

text \<open>The continuation tokens of the pages that the listing calls returned, in order.\<close>

definition page_tokens :: "event list \<Rightarrow> string list" where
  "page_tokens tr =
     concat (map (\<lambda>e. case e of ListCall tok (Inr r) \<Rightarrow> [NextPageToken r] | _ \<Rightarrow> []) tr)"

definition listing_failed :: "event list \<Rightarrow> bool" where
  "listing_failed tr = list_ex (\<lambda>e. case e of ListCall tok (Inl err) \<Rightarrow> True | _ \<Rightarrow> False) tr"

text \<open>
  The sender of a fetched message: the address in its first header named \<open>From\<close>, if
  it has one.
\<close>

definition first_From :: "MessagePartHeader list \<Rightarrow> MessagePartHeader option" where
  "first_From hs = find (\<lambda>h. Name h = ''From'') hs"

definition sender_of :: "Message \<Rightarrow> string option" where
  "sender_of m =
     (case Payload m of
        None \<Rightarrow> None
      | Some part \<Rightarrow> map_option (\<lambda>h. extractEmail (Value h)) (first_From (Headers part)))"

definition has_From :: "Message \<Rightarrow> bool" where
  "has_From m =
     (case Payload m of
        None \<Rightarrow> False
      | Some part \<Rightarrow> ''From'' \<in> set (map Name (Headers part)))"

text \<open>
  The pairs (sender, message ID) credited for a sequence of fetched messages: one for
  each message that has a sender, in the order of the sequence; and those of a run.
\<close>

definition credited :: "(string \<times> Message) list \<Rightarrow> (string \<times> string) list" where
  "credited ms = concat (map (\<lambda>(i, m). case sender_of m of None \<Rightarrow> [] | Some s \<Rightarrow> [(s, i)]) ms)"

definition credits :: "event list \<Rightarrow> (string \<times> string) list" where
  "credits tr = credited (fetched tr)"

text \<open>The remote calls of a run with their responses, without the console.\<close>

definition responses :: "event list \<Rightarrow> event list" where
  "responses tr =
     filter (\<lambda>e. case e of ListCall tok r \<Rightarrow> True | GetCall i r \<Rightarrow> True | _ \<Rightarrow> False) tr"

text \<open>The map after a sequence of insert-or-update steps from the empty map.\<close>

definition aggregate :: "(string \<times> string) list \<Rightarrow> sender_map" where
  "aggregate cs = foldl (\<lambda>m (s, i). upsert m s i) [] cs"

text \<open>The IDs credited to one sender, in the order in which they were credited.\<close>

definition ids_of :: "string \<Rightarrow> (string \<times> string) list \<Rightarrow> string list" where
  "ids_of s cs = map snd (filter (\<lambda>c. fst c = s) cs)"

text \<open>The notice of line 249.\<close>

definition notice :: "string \<Rightarrow> event" where
  "notice i = Printed (''Could not get metadata for email ID '' @ i @ '', continuing'' @ nl)"

text \<open>Every failed metadata request in the trace is followed at once by its notice.\<close>

fun noticed :: "event list \<Rightarrow> bool" where
  "noticed [] = True"
| "noticed (GetCall i (Inl err) # rest) =
     (case rest of [] \<Rightarrow> False | e # rest' \<Rightarrow> e = notice i \<and> noticed rest')"
| "noticed (e # rest) = noticed rest"


section \<open>Test services\<close>

text \<open>
  A listing entry carries the ID only. A metadata response carries the headers.
\<close>

definition entry :: "string \<Rightarrow> Message" where
  "entry i = \<lparr>MsgId = i, LabelIds = [], Payload = None\<rparr>"

definition metadata :: "string \<Rightarrow> MessagePartHeader list \<Rightarrow> Message" where
  "metadata i hs = \<lparr>MsgId = i, LabelIds = [], Payload = Some \<lparr>Headers = hs\<rparr>\<rparr>"

definition From :: "string \<Rightarrow> MessagePartHeader" where
  "From v = \<lparr>Name = ''From'', Value = v\<rparr>"

text \<open>
  The store of the pagination scenario: the page \<open>[A, B]\<close> with a continuation token,
  the page \<open>[C]\<close> with another, and an empty last page without one. The headers of the
  three messages are arguments.
\<close>

definition three_pages ::
  "MessagePartHeader list \<Rightarrow> MessagePartHeader list \<Rightarrow> MessagePartHeader list \<Rightarrow> unit gmail_service" where
  "three_pages hA hB hC =
     \<lparr>List_Do = (\<lambda>tok w.
        (Inr (if tok = [] then \<lparr>Messages = [entry ''A'', entry ''B''], NextPageToken = ''p2''\<rparr>
              else if tok = ''p2'' then \<lparr>Messages = [entry ''C''], NextPageToken = ''p3''\<rparr>
              else \<lparr>Messages = [], NextPageToken = []\<rparr>), w)),
      Get_Do = (\<lambda>i w.
        (if i = ''A'' then Inr (metadata i hA)
         else if i = ''B'' then Inr (metadata i hB)
         else if i = ''C'' then Inr (metadata i hC)
         else Inl ''not found'', w)),
      Trash_Do = (\<lambda>i w. (Inl ''not used'', w))\<rparr>"

text \<open>
  A store of one page whose messages are given with their metadata responses; the
  same ID may be listed more than once.
\<close>

definition one_page :: "(string \<times> (error + Message)) list \<Rightarrow> unit gmail_service" where
  "one_page ms =
     \<lparr>List_Do = (\<lambda>tok w. (Inr \<lparr>Messages = map (\<lambda>(i, r). entry i) ms, NextPageToken = []\<rparr>, w)),
      Get_Do = (\<lambda>i w. (case map_of ms i of None \<Rightarrow> Inl ''not found'' | Some r \<Rightarrow> r, w)),
      Trash_Do = (\<lambda>i w. (Inl ''not used'', w))\<rparr>"

text \<open>A service whose listing fails at once.\<close>

definition listing_down :: "unit gmail_service" where
  "listing_down =
     \<lparr>List_Do = (\<lambda>tok w. (Inl ''quota exceeded'', w)),
      Get_Do = (\<lambda>i w. (Inl ''not used'', w)),
      Trash_Do = (\<lambda>i w. (Inl ''not used'', w))\<rparr>"

text \<open>
  A service whose first page holds the message \<open>A\<close> and a token, and whose listing
  fails for the second page.
\<close>

definition second_page_down :: "unit gmail_service" where
  "second_page_down =
     \<lparr>List_Do = (\<lambda>tok w.
        (if tok = [] then Inr \<lparr>Messages = [\<lparr>MsgId = ''A'', LabelIds = [], Payload = None\<rparr>],
                                NextPageToken = ''p2''\<rparr>
         else Inl ''quota exceeded'', w)),
      Get_Do = (\<lambda>i w.
        (Inr \<lparr>MsgId = i, LabelIds = [],
              Payload = Some \<lparr>Headers = [\<lparr>Name = ''From'', Value = ''Alice <a@x.com>''\<rparr>]\<rparr>\<rparr>, w)),
      Trash_Do = (\<lambda>i w. (Inl ''not used'', w))\<rparr>"

text \<open>A service that hands out another token with every (empty) page.\<close>

definition endless :: "unit gmail_service" where
  "endless =
     \<lparr>List_Do = (\<lambda>tok w. (Inr \<lparr>Messages = [], NextPageToken = ''next''\<rparr>, w)),
      Get_Do = (\<lambda>i w. (Inl ''not used'', w)),
      Trash_Do = (\<lambda>i w. (Inl ''not used'', w))\<rparr>"

text \<open>
  A trash service over a table: an ID of the table gets the labels given there, any other
  ID fails.
\<close>

definition trash_table :: "(string \<times> string list) list \<Rightarrow> unit gmail_service" where
  "trash_table t =
     \<lparr>List_Do = (\<lambda>tok w. (Inl ''not used'', w)),
      Get_Do = (\<lambda>i w. (Inl ''not used'', w)),
      Trash_Do = (\<lambda>i w.
        (case map_of t i of
           None \<Rightarrow> Inl ''notFound''
         | Some ls \<Rightarrow> Inr \<lparr>MsgId = i, LabelIds = ls, Payload = None\<rparr>, w))\<rparr>"

text \<open>
  A machine without a token file, on which the authorisation in the browser succeeds
  with the token \<open>T\<close> and the write of the token file fails.
\<close>

definition read_only_disk :: "(unit, string) token_env" where
  "read_only_disk =
     \<lparr>ReadFile = (\<lambda>file w. (Inl ''open token.json: no such file or directory'', w)),
      WriteFile = (\<lambda>file data w. (Some ''open token.json: read-only file system'', w)),
      Unmarshal = (\<lambda>data. Inr data),
      Marshal = (\<lambda>tok. Inr tok),
      getTokenFromWeb = (\<lambda>w.
        Some (Inr ''T'', w, [Printed (''Please visit the following URL to authorize this application:'' @ nl)]))\<rparr>"


section \<open>The invariant of the page loop\<close>

text \<open>
  At the start of every round: the map is the aggregate of the credits so far,
  metadata has been requested for exactly the listed messages, no listing has failed,
  and every failed metadata request has its notice.
\<close>

definition round_inv :: "'w harvest_state \<Rightarrow> bool" where
  "round_inv st =
     (senderMap st = aggregate (credits (trace st))
      \<and> requested (trace st) = listed (trace st)
      \<and> \<not> listing_failed (trace st)
      \<and> noticed (trace st))"

text \<open>
  The state in which the loop starts its round number \<open>n + 1\<close>, when it gets that far:
  \<open>None\<close> when one of the first \<open>n\<close> rounds left the loop.
\<close>

primrec after_rounds ::
  "nat \<Rightarrow> 'w gmail_service \<Rightarrow> 'w harvest_state \<Rightarrow> 'w harvest_state option" where
  "after_rounds 0 srv st = Some st"
| "after_rounds (Suc n) srv st =
     (case page_round srv st of
        Again st' \<Rightarrow> after_rounds n srv st'
      | Leave out \<Rightarrow> None)"

text \<open>
  The tokens at the start of every round: the requests made so far, followed by the
  token of the request to come, are the empty token followed by the tokens of the pages
  received, none of which was empty.
\<close>

definition token_inv :: "'w harvest_state \<Rightarrow> bool" where
  "token_inv st =
     (page_requests (trace st) @ [pageToken st] = [] # page_tokens (trace st)
      \<and> [] \<notin> set (page_tokens (trace st)))"

text \<open>
  The tokens of a run that returned its records: the last page received, and no page
  before it, came without a token, and every request carried the token of the page
  before. The tokens of a run that returned an error: no page received came without a
  token, and every request, the failed one too, carried the token of the page before.
\<close>

definition ended_without_token :: "event list \<Rightarrow> bool" where
  "ended_without_token tr =
     (page_tokens tr \<noteq> []
      \<and> last (page_tokens tr) = []
      \<and> [] \<notin> set (butlast (page_tokens tr))
      \<and> page_requests tr = [] # butlast (page_tokens tr))"

definition left_tokens :: "sender_map result \<Rightarrow> event list \<Rightarrow> bool" where
  "left_tokens res tr =
     (case res of
        Ok m \<Rightarrow> ended_without_token tr
      | Err e \<Rightarrow> page_requests tr = [] # page_tokens tr \<and> [] \<notin> set (page_tokens tr)
      | Panicked \<Rightarrow> True)"

text \<open>What holds when the loop is left, for each way of leaving it.\<close>

definition left_with :: "sender_map result \<Rightarrow> event list \<Rightarrow> bool" where
  "left_with res tr =
     (case res of
        Ok m \<Rightarrow>
          m = aggregate (credits tr) \<and> requested tr = listed tr
          \<and> \<not> listing_failed tr \<and> noticed tr
      | Err e \<Rightarrow> listing_failed tr \<and> noticed tr \<and> tr \<noteq> [] \<and> (case last tr of ListCall tok (Inl e') \<Rightarrow> e' = e | _ \<Rightarrow> False)
      | Panicked \<Rightarrow> \<not> listing_failed tr \<and> noticed tr)"


section \<open>Test data\<close>

definition subject_only :: Message where
  "subject_only = metadata ''A'' [\<lparr>Name = ''Subject'', Value = ''hello''\<rparr>]"

definition subject_only_trace :: "event list" where
  "subject_only_trace =
     [ListCall [] (Inr \<lparr>Messages = [entry ''A''], NextPageToken = []\<rparr>),
      GetCall ''A'' (Inr subject_only)]"

definition from_alice :: "string \<Rightarrow> Message" where
  "from_alice i = metadata i [\<lparr>Name = ''To'', Value = ''me@x.com''\<rparr>, From ''Alice <a@x.com>'', From ''Bob <b@y.org>'']"

definition alice_twice :: SenderStats where
  "alice_twice = \<lparr>Email = ''a@x.com'', Count = 2, Ids = [''A'', ''A'']\<rparr>"

definition alice_AC :: SenderStats where
  "alice_AC = \<lparr>Email = ''a@x.com'', Count = 2, Ids = [''A'', ''C'']\<rparr>"

definition alice_A :: SenderStats where
  "alice_A = \<lparr>Email = ''a@x.com'', Count = 1, Ids = [''A'']\<rparr>"

definition bob_B :: SenderStats where
  "bob_B = \<lparr>Email = ''b@y.org'', Count = 1, Ids = [''B'']\<rparr>"

text \<open>The state in which \<open>getSenderStats\<close> enters its loop, in a world without state.\<close>

definition start :: "unit harvest_state" where
  "start = \<lparr>world = (), trace = [], senderMap = [], pageToken = []\<rparr>"

section \<open>Sender extraction: proofs\<close>

lemma LastIndex_bounds: "- 1 \<le> LastIndex s c \<and> LastIndex s c < int (length s)"
  by (induction s) (auto simp: Let_def)

lemma LastIndex_absent: "c \<notin> set s \<Longrightarrow> LastIndex s c = - 1"
  by (induction s) (auto simp: Let_def)

lemma LastIndex_present: "c \<in> set s \<Longrightarrow> 0 \<le> LastIndex s c"
  by (induction s) (auto simp: Let_def)

lemma LastIndex_last_occurrence:
  "c \<notin> set post \<Longrightarrow> LastIndex (pre @ c # post) c = int (length pre)"
  by (induction pre) (auto simp: Let_def LastIndex_absent)

lemma LastIndex_before:
  "c \<notin> set post \<Longrightarrow> LastIndex (pre @ post) c = LastIndex pre c"
proof (induction pre)
  case Nil
  then show ?case by (simp add: LastIndex_absent)
next
  case (Cons x pre)
  then show ?case by (simp add: Let_def)
qed

text \<open>The only slice that \<open>extractEmail\<close> takes is within the bounds of the string.\<close>

lemma extractEmail_slice_in_range:
  assumes "0 \<le> LastIndex s (CHR ''<'')"
    and "LastIndex s (CHR ''<'') < LastIndex s (CHR ''>'')"
  shows "0 \<le> LastIndex s (CHR ''<'') + 1
       \<and> LastIndex s (CHR ''<'') + 1 \<le> LastIndex s (CHR ''>'')
       \<and> LastIndex s (CHR ''>'') \<le> int (length s)"
  using assms LastIndex_bounds [of s "CHR ''>''"] by linarith

lemma slice_middle:
  "slice (pre @ a # mid @ b # post) (int (length pre) + 1) (int (length pre) + 1 + int (length mid)) = mid"
proof -
  have "nat (int (length pre) + 1) = Suc (length pre)" by simp
  then show ?thesis by (simp add: slice_def)
qed

lemma extractEmail_pair:
  assumes "CHR ''<'' \<notin> set mid" and "CHR ''<'' \<notin> set post" and "CHR ''>'' \<notin> set post"
  shows "extractEmail (pre @ CHR ''<'' # mid @ CHR ''>'' # post) = mid"
proof -
  let ?s = "pre @ CHR ''<'' # mid @ CHR ''>'' # post"
  have "CHR ''<'' \<notin> set (mid @ CHR ''>'' # post)"
    using assms by simp
  then have i_open: "LastIndex ?s (CHR ''<'') = int (length pre)"
    by (rule LastIndex_last_occurrence)
  have "LastIndex ((pre @ CHR ''<'' # mid) @ CHR ''>'' # post) (CHR ''>'')
          = int (length (pre @ CHR ''<'' # mid))"
    using assms(3) by (rule LastIndex_last_occurrence)
  then have i_close: "LastIndex ?s (CHR ''>'') = int (length pre) + 1 + int (length mid)"
    by simp
  show ?thesis
    unfolding extractEmail_def i_open i_close Let_def
    by (simp add: slice_middle)
qed

lemma extractEmail_unclosed:
  assumes "CHR ''<'' \<notin> set rest" and "CHR ''>'' \<notin> set rest"
  shows "extractEmail (pre @ CHR ''<'' # rest) = pre @ CHR ''<'' # rest"
proof -
  let ?s = "pre @ CHR ''<'' # rest"
  have i_open: "LastIndex ?s (CHR ''<'') = int (length pre)"
    using assms(1) by (rule LastIndex_last_occurrence)
  have "CHR ''>'' \<notin> set (CHR ''<'' # rest)"
    using assms(2) by simp
  then have "LastIndex ?s (CHR ''>'') = LastIndex pre (CHR ''>'')"
    by (rule LastIndex_before)
  then have "LastIndex ?s (CHR ''>'') < int (length pre)"
    using LastIndex_bounds [of pre "CHR ''>''"] by simp
  then show ?thesis
    unfolding extractEmail_def Let_def i_open by simp
qed

lemma extractEmail_no_open:
  assumes "CHR ''<'' \<notin> set from"
  shows "extractEmail from = from"
  using LastIndex_absent [OF assms] by (simp add: extractEmail_def)

text \<open>
  The reading with the first \<open>>\<close> and \<open>extractEmail\<close> agree on every value with a
  single \<open>>\<close> after the last \<open><\<close>, which covers \<open>name <address>\<close>.
\<close>

lemma after_last_absent: "c \<notin> set s \<Longrightarrow> after_last c s = None"
  by (induction s) (auto split: option.splits)

lemma after_last_split: "c \<notin> set rest \<Longrightarrow> after_last c (pre @ c # rest) = Some rest"
  by (induction pre) (auto simp: after_last_absent split: option.splits)

lemma first_close_rule_pair:
  assumes "CHR ''<'' \<notin> set mid" and "CHR ''<'' \<notin> set post" and "CHR ''>'' \<notin> set mid"
  shows "first_close_rule (pre @ CHR ''<'' # mid @ CHR ''>'' # post) = mid"
proof -
  have "CHR ''<'' \<notin> set (mid @ CHR ''>'' # post)"
    using assms by simp
  then have "after_last (CHR ''<'') (pre @ CHR ''<'' # mid @ CHR ''>'' # post)
               = Some (mid @ CHR ''>'' # post)"
    by (rule after_last_split)
  moreover have "takeWhile (\<lambda>c. c \<noteq> CHR ''>'') (mid @ CHR ''>'' # post) = mid"
    using assms(3) by (simp add: takeWhile_append)
  ultimately show ?thesis
    by (simp add: first_close_rule_def)
qed

lemma extractEmail_single_close:
  assumes "CHR ''<'' \<notin> set mid" and "CHR ''<'' \<notin> set post"
    and "CHR ''>'' \<notin> set mid" and "CHR ''>'' \<notin> set post"
  shows "extractEmail (pre @ CHR ''<'' # mid @ CHR ''>'' # post)
           = first_close_rule (pre @ CHR ''<'' # mid @ CHR ''>'' # post)"
  using assms by (simp add: extractEmail_pair first_close_rule_pair)

text \<open>
  Claim C1 as written: the address is the text between the last \<open><\<close> and the first
  \<open>>\<close> after it. On \<open><a>>\<close> that text is \<open>a\<close>, and \<open>extractEmail\<close> returns \<open>a>\<close>:
  both brackets are located with \<open>strings.LastIndex\<close>, so the address ends at the last
  \<open>>\<close> of the value.
\<close>

theorem extractEmail_first_close_counterexample:
  "first_close_rule ''<a>>'' = ''a'' \<and> extractEmail ''<a>>'' = ''a>''"
  by (simp add: first_close_rule_def extractEmail_def slice_def)

text \<open>
  Claim C1, amended. Every From value has exactly one of three shapes, and
  \<open>extractEmail\<close> is determined on each: when a \<open>>\<close> follows the last \<open><\<close>, the result
  is the text between the last \<open><\<close> and the last \<open>>\<close>; when no \<open>>\<close> follows the last
  \<open><\<close>, or when there is no \<open><\<close> at all, the value is returned unchanged.
\<close>

theorem extractEmail_last_pair:
  "(CHR ''<'' \<notin> set mid \<and> CHR ''<'' \<notin> set post \<and> CHR ''>'' \<notin> set post
      \<longrightarrow> extractEmail (pre @ CHR ''<'' # mid @ CHR ''>'' # post) = mid)
   \<and> (CHR ''<'' \<notin> set rest \<and> CHR ''>'' \<notin> set rest
      \<longrightarrow> extractEmail (pre @ CHR ''<'' # rest) = pre @ CHR ''<'' # rest)
   \<and> (CHR ''<'' \<notin> set from \<longrightarrow> extractEmail from = from)"
  using extractEmail_pair extractEmail_unclosed extractEmail_no_open by blast

theorem extractEmail_last_pair_witness:
  "(CHR ''<'' \<notin> set ''a@x.com>'' \<and> CHR ''<'' \<notin> set '' (work)'' \<and> CHR ''>'' \<notin> set '' (work)'')
   \<and> extractEmail ''Alice <b@y.org> <a@x.com>> (work)'' = ''a@x.com>''
   \<and> (CHR ''<'' \<notin> set ''a@x.com'' \<and> CHR ''>'' \<notin> set ''a@x.com'')
   \<and> extractEmail ''Alice> <a@x.com'' = ''Alice> <a@x.com''
   \<and> CHR ''<'' \<notin> set ''a@x.com''
   \<and> extractEmail ''a@x.com'' = ''a@x.com''"
  using extractEmail_last_pair
    [where pre = "''Alice <b@y.org> ''" and mid = "''a@x.com>''" and post = "'' (work)''"
       and rest = "''a@x.com''" and ?from = "''a@x.com''"]
    extractEmail_last_pair
    [where pre = "''Alice> ''" and mid = "[]" and post = "[]"
       and rest = "''a@x.com''" and ?from = "''a@x.com''"]
  by simp

section \<open>Aggregation: proofs\<close>

lemma aggregate_Nil: "aggregate [] = []"
  by (simp add: aggregate_def)

lemma aggregate_snoc: "aggregate (cs @ [(s, i)]) = upsert (aggregate cs) s i"
  by (simp add: aggregate_def)

lemma map_of_upsert:
  "map_of (upsert m s i) =
     (map_of m)(s \<mapsto>
        (case map_of m s of
           Some r \<Rightarrow> r\<lparr>Count := Count r + 1, Ids := Ids r @ [i]\<rparr>
         | None \<Rightarrow> \<lparr>Email = s, Count = 1, Ids = [i]\<rparr>))"
  by (simp add: upsert_def update_conv' split: option.split)

lemma distinct_upsert: "distinct (map fst m) \<Longrightarrow> distinct (map fst (upsert m s i))"
  by (simp add: upsert_def distinct_update split: option.split)

lemma distinct_aggregate: "distinct (map fst (aggregate cs))"
proof (induction cs rule: rev_induct)
  case Nil
  show ?case by (simp add: aggregate_Nil)
next
  case (snoc c cs)
  obtain s i where c: "c = (s, i)" by (cases c)
  show ?case unfolding c aggregate_snoc by (rule distinct_upsert) (rule snoc.IH)
qed

lemma ids_of_snoc: "ids_of s (cs @ [(s', i)]) = (if s' = s then ids_of s cs @ [i] else ids_of s cs)"
  by (simp add: ids_of_def)

lemma ids_of_empty: "s \<notin> fst ` set cs \<Longrightarrow> ids_of s cs = []"
  by (induction cs) (auto simp: ids_of_def)

text \<open>The record of each sender after any sequence of insert-or-update steps.\<close>

lemma map_of_aggregate:
  "map_of (aggregate cs) s =
     (if s \<in> fst ` set cs
      then Some \<lparr>Email = s, Count = int (length (ids_of s cs)), Ids = ids_of s cs\<rparr>
      else None)"
proof (induction cs rule: rev_induct)
  case Nil
  show ?case by (simp add: aggregate_Nil)
next
  case (snoc c cs)
  obtain s' i where c: "c = (s', i)" by (cases c)
  show ?case
  proof (cases "s' = s")
    case True
    show ?thesis
    proof (cases "s \<in> fst ` set cs")
      case True
      with snoc.IH \<open>s' = s\<close> show ?thesis
        unfolding c aggregate_snoc map_of_upsert by (simp add: ids_of_snoc)
    next
      case False
      with snoc.IH \<open>s' = s\<close> show ?thesis
        unfolding c aggregate_snoc map_of_upsert by (simp add: ids_of_snoc ids_of_empty)
    qed
  next
    case False
    with snoc.IH show ?thesis
      unfolding c aggregate_snoc map_of_upsert by (simp add: ids_of_snoc)
  qed
qed

lemma aggregate_entry:
  assumes "(s, r) \<in> set (aggregate cs)"
  shows "s \<in> fst ` set cs \<and> r = \<lparr>Email = s, Count = int (length (ids_of s cs)), Ids = ids_of s cs\<rparr>"
proof -
  have "map_of (aggregate cs) s = Some r"
    using assms distinct_aggregate by (simp add: map_of_eq_Some_iff)
  then show ?thesis
    by (simp add: map_of_aggregate split: if_splits)
qed

lemma sum_update_absent:
  "map_of m k = None \<Longrightarrow>
     sum_list (map (\<lambda>p. Count (snd p)) (AList.update k v m)) = sum_list (map (\<lambda>p. Count (snd p)) m) + Count v"
  by (induction m) (auto split: if_splits)

lemma sum_update_present:
  "map_of m k = Some r \<Longrightarrow>
     sum_list (map (\<lambda>p. Count (snd p)) (AList.update k v m))
       = sum_list (map (\<lambda>p. Count (snd p)) m) - Count r + Count v"
  by (induction m) (auto split: if_splits)

lemma sum_upsert:
  "sum_list (map (\<lambda>p. Count (snd p)) (upsert m s i)) = sum_list (map (\<lambda>p. Count (snd p)) m) + 1"
  by (simp add: upsert_def sum_update_absent sum_update_present split: option.split)

lemma sum_aggregate: "sum_list (map (\<lambda>p. Count (snd p)) (aggregate cs)) = int (length cs)"
proof (induction cs rule: rev_induct)
  case Nil
  show ?case by (simp add: aggregate_Nil)
next
  case (snoc c cs)
  obtain s i where c: "c = (s, i)" by (cases c)
  show ?case unfolding c aggregate_snoc sum_upsert using snoc.IH by simp
qed

text \<open>The order in which \<open>range\<close> visits the map changes neither the records nor their sum.\<close>

lemma mset_range_order: "mset (range_order ks xs) = mset xs"
proof (induction ks xs rule: range_order.induct)
  case (3 k ks x xs)
  let ?r = "range_order ks xs"
  let ?i = "k mod (length ?r + 1)"
  have "mset (take ?i ?r) + mset (drop ?i ?r) = mset ?r"
    by (simp flip: mset_append)
  then show ?case using 3 by (simp add: Let_def)
qed simp_all

lemma range_order_any:
  "mset ys = mset xs \<Longrightarrow> \<exists>ks. range_order ks xs = ys"
proof (induction xs arbitrary: ys)
  case Nil
  then show ?case by simp
next
  case (Cons x xs)
  then have "x \<in> set ys"
    by (metis list.set_intros(1) set_mset_mset)
  then obtain as bs where ys: "ys = as @ x # bs"
    by (auto simp: in_set_conv_decomp)
  with Cons.prems have "mset (as @ bs) = mset xs" by simp
  then obtain ks where ks: "range_order ks xs = as @ bs"
    using Cons.IH by blast
  have "length as mod (length (as @ bs) + 1) = length as" by simp
  then have "range_order (length as # ks) (x # xs) = ys"
    unfolding ys by (simp add: ks Let_def)
  then show ?case by blast
qed

section \<open>The harvest: proofs\<close>

subsection \<open>Traces\<close>

lemma listed_append: "listed (a @ b) = listed a @ listed b"
  by (simp add: listed_def)

lemma requested_append: "requested (a @ b) = requested a @ requested b"
  by (simp add: requested_def)

lemma fetched_append: "fetched (a @ b) = fetched a @ fetched b"
  by (simp add: fetched_def)

lemma credits_append: "credits (a @ b) = credits a @ credits b"
  by (simp add: credits_def credited_def fetched_append)

lemma page_requests_append: "page_requests (a @ b) = page_requests a @ page_requests b"
  by (simp add: page_requests_def)

lemma listing_failed_append: "listing_failed (a @ b) = (listing_failed a \<or> listing_failed b)"
  by (simp add: listing_failed_def list_ex_iff) blast

lemma noticed_append: "noticed a \<Longrightarrow> noticed b \<Longrightarrow> noticed (a @ b)"
  by (induction a rule: noticed.induct) (auto split: list.splits)

lemma aggregate_append:
  "aggregate (a @ b) = foldl (\<lambda>m (s, i). upsert m s i) (aggregate a) b"
  by (simp add: aggregate_def)

subsection \<open>One message\<close>

lemma scan_headers_first_From:
  "scan_headers hs m i =
     (case first_From hs of None \<Rightarrow> m | Some h \<Rightarrow> upsert m (extractEmail (Value h)) i)"
  by (induction hs) (simp_all add: first_From_def)

lemma first_From_None: "first_From hs = None \<longleftrightarrow> ''From'' \<notin> set (map Name hs)"
  by (induction hs) (auto simp: first_From_def)

lemma sender_of_has_From: "sender_of m \<noteq> None \<longleftrightarrow> has_From m"
proof (cases "Payload m")
  case None
  then show ?thesis by (simp add: sender_of_def has_From_def)
next
  case (Some part)
  have "first_From (Headers part) \<noteq> None \<longleftrightarrow> ''From'' \<in> set (map Name (Headers part))"
    by (simp add: first_From_None)
  with Some show ?thesis by (simp add: sender_of_def has_From_def)
qed

text \<open>
  What one pass through the body of the message loop adds to the trace, and what it
  does to the map.
\<close>

lemma process_message_Inr:
  assumes "process_message srv msg st = Inr st'"
  shows "\<exists>ext. trace st' = trace st @ ext
           \<and> requested ext = [MsgId msg] \<and> listed ext = [] \<and> page_requests ext = []
           \<and> \<not> listing_failed ext \<and> noticed ext
           \<and> senderMap st' = foldl (\<lambda>m (s, i). upsert m s i) (senderMap st) (credits ext)
           \<and> pageToken st' = pageToken st"
proof (cases "Get_Do srv (MsgId msg) (world st)")
  case (Pair resp w)
  show ?thesis
  proof (cases resp)
    case (Inl err)
    let ?ext = "[GetCall (MsgId msg) (Inl err), notice (MsgId msg)]"
    have st': "st' = st\<lparr>world := w, trace := trace st @ ?ext\<rparr>"
      using assms Pair Inl by (simp add: process_message_def notice_def)
    have "requested ?ext = [MsgId msg]" "listed ?ext = []" "page_requests ?ext = []"
      "\<not> listing_failed ?ext" "noticed ?ext" "credits ?ext = []"
      by (simp_all add: requested_def listed_def page_requests_def listing_failed_def
          credits_def credited_def fetched_def notice_def)
    then show ?thesis using st' by (intro exI [of _ ?ext]) simp
  next
    case (Inr message)
    then obtain part where part: "Payload message = Some part"
      using assms Pair by (auto simp: process_message_def split: option.splits)
    let ?ext = "[GetCall (MsgId msg) (Inr message)]"
    have st': "st' = st\<lparr>world := w, trace := trace st @ ?ext,
                 senderMap := scan_headers (Headers part) (senderMap st) (MsgId msg)\<rparr>"
      using assms Pair Inr part by (simp add: process_message_def)
    have facts: "requested ?ext = [MsgId msg]" "listed ?ext = []" "page_requests ?ext = []"
      "\<not> listing_failed ?ext" "noticed ?ext"
      by (simp_all add: requested_def listed_def page_requests_def listing_failed_def)
    have "foldl (\<lambda>m (s, i). upsert m s i) (senderMap st) (credits ?ext)
            = scan_headers (Headers part) (senderMap st) (MsgId msg)"
      by (simp add: credits_def credited_def fetched_def sender_of_def part scan_headers_first_From
          split: option.split)
    then show ?thesis using st' facts by (intro exI [of _ ?ext]) simp
  qed
qed

lemma process_message_Inl:
  assumes "process_message srv msg st = Inl tr"
  shows "\<exists>ext. tr = trace st @ ext \<and> \<not> listing_failed ext \<and> noticed ext"
proof -
  obtain resp w where r: "Get_Do srv (MsgId msg) (world st) = (resp, w)"
    by (cases "Get_Do srv (MsgId msg) (world st)")
  from assms r obtain message where "tr = trace st @ [GetCall (MsgId msg) (Inr message)]"
    by (auto simp: process_message_def split: sum.splits option.splits)
  moreover have "\<not> listing_failed [GetCall (MsgId msg) (Inr message)]"
    "noticed [GetCall (MsgId msg) (Inr message)]"
    by (simp_all add: listing_failed_def)
  ultimately show ?thesis by blast
qed

subsection \<open>The messages of a page\<close>

lemma process_messages_Inr:
  "process_messages srv msgs st = Inr st' \<Longrightarrow>
     \<exists>ext. trace st' = trace st @ ext
        \<and> requested ext = map MsgId msgs \<and> listed ext = [] \<and> page_requests ext = []
        \<and> \<not> listing_failed ext \<and> noticed ext
        \<and> senderMap st' = foldl (\<lambda>m (s, i). upsert m s i) (senderMap st) (credits ext)
        \<and> pageToken st' = pageToken st"
proof (induction msgs arbitrary: st)
  case Nil
  then have "st' = st" by simp
  moreover have "requested [] = []" "listed [] = []" "page_requests [] = []"
    "\<not> listing_failed []" "noticed []" "credits [] = []"
    by (simp_all add: requested_def listed_def page_requests_def listing_failed_def
        credits_def credited_def fetched_def)
  ultimately show ?case by (intro exI [of _ "[]"]) simp
next
  case (Cons msg msgs)
  then obtain st1 where one: "process_message srv msg st = Inr st1"
    and rest: "process_messages srv msgs st1 = Inr st'"
    by (auto split: sum.splits)
  from process_message_Inr [OF one] obtain e1 where e1:
    "trace st1 = trace st @ e1" "requested e1 = [MsgId msg]" "listed e1 = []"
    "page_requests e1 = []" "\<not> listing_failed e1" "noticed e1"
    "senderMap st1 = foldl (\<lambda>m (s, i). upsert m s i) (senderMap st) (credits e1)"
    "pageToken st1 = pageToken st"
    by blast
  from Cons.IH [OF rest] obtain e2 where e2:
    "trace st' = trace st1 @ e2" "requested e2 = map MsgId msgs" "listed e2 = []"
    "page_requests e2 = []" "\<not> listing_failed e2" "noticed e2"
    "senderMap st' = foldl (\<lambda>m (s, i). upsert m s i) (senderMap st1) (credits e2)"
    "pageToken st' = pageToken st1"
    by blast
  have "trace st' = trace st @ (e1 @ e2)"
    using e1(1) e2(1) by simp
  moreover have "requested (e1 @ e2) = map MsgId (msg # msgs)"
    using e1(2) e2(2) by (simp add: requested_append)
  moreover have "listed (e1 @ e2) = []" "page_requests (e1 @ e2) = []"
    using e1(3,4) e2(3,4) by (simp_all add: listed_append page_requests_append)
  moreover have "\<not> listing_failed (e1 @ e2)" "noticed (e1 @ e2)"
    using e1(5,6) e2(5,6) by (simp_all add: listing_failed_append noticed_append)
  moreover have "senderMap st' = foldl (\<lambda>m (s, i). upsert m s i) (senderMap st) (credits (e1 @ e2))"
    using e1(7) e2(7) by (simp add: credits_append)
  moreover have "pageToken st' = pageToken st"
    using e1(8) e2(8) by simp
  ultimately show ?case by blast
qed

lemma process_messages_Inl:
  "process_messages srv msgs st = Inl tr \<Longrightarrow>
     \<exists>ext. tr = trace st @ ext \<and> \<not> listing_failed ext \<and> noticed ext"
proof (induction msgs arbitrary: st)
  case Nil
  then show ?case by simp
next
  case (Cons msg msgs)
  show ?case
  proof (cases "process_message srv msg st")
    case (Inl tr')
    with Cons.prems have "tr' = tr" by simp
    with Inl show ?thesis using process_message_Inl by blast
  next
    case (Inr st1)
    with Cons.prems have rest: "process_messages srv msgs st1 = Inl tr" by simp
    from process_message_Inr [OF Inr] obtain e1 where e1:
      "trace st1 = trace st @ e1" "\<not> listing_failed e1" "noticed e1"
      by blast
    from Cons.IH [OF rest] obtain e2 where e2:
      "tr = trace st1 @ e2" "\<not> listing_failed e2" "noticed e2"
      by blast
    have "tr = trace st @ (e1 @ e2)" "\<not> listing_failed (e1 @ e2)" "noticed (e1 @ e2)"
      using e1 e2 by (simp_all add: listing_failed_append noticed_append)
    then show ?thesis by blast
  qed
qed

subsection \<open>One round of the page loop\<close>

lemma round_inv_init: "round_inv \<lparr>world = w, trace = [], senderMap = [], pageToken = []\<rparr>"
  by (simp add: round_inv_def aggregate_def credits_def credited_def fetched_def requested_def listed_def
      listing_failed_def)

lemma page_round_cases:
  obtains
    (failed) err w where "List_Do srv (pageToken st) (world st) = (Inl err, w)"
      and "page_round srv st = Leave (Err err, trace st @ [ListCall (pageToken st) (Inl err)])"
  | (panic) r w tr where "List_Do srv (pageToken st) (world st) = (Inr r, w)"
      and "process_messages srv (Messages r)
             (st\<lparr>world := w, trace := trace st @ [ListCall (pageToken st) (Inr r)]\<rparr>) = Inl tr"
      and "page_round srv st = Leave (Panicked, tr)"
  | (last) r w st1 where "List_Do srv (pageToken st) (world st) = (Inr r, w)"
      and "process_messages srv (Messages r)
             (st\<lparr>world := w, trace := trace st @ [ListCall (pageToken st) (Inr r)]\<rparr>) = Inr st1"
      and "NextPageToken r = []"
      and "page_round srv st = Leave (Ok (senderMap st1), trace st1)"
  | (more) r w st1 where "List_Do srv (pageToken st) (world st) = (Inr r, w)"
      and "process_messages srv (Messages r)
             (st\<lparr>world := w, trace := trace st @ [ListCall (pageToken st) (Inr r)]\<rparr>) = Inr st1"
      and "NextPageToken r \<noteq> []"
      and "page_round srv st = Again (st1\<lparr>pageToken := NextPageToken r\<rparr>)"
proof (cases "List_Do srv (pageToken st) (world st)")
  case (Pair resp w)
  show ?thesis
  proof (cases resp)
    case (Inl err)
    with Pair show ?thesis by (intro failed [of err w]) (simp_all add: page_round_def)
  next
    case (Inr r)
    let ?st0 = "st\<lparr>world := w, trace := trace st @ [ListCall (pageToken st) (Inr r)]\<rparr>"
    show ?thesis
    proof (cases "process_messages srv (Messages r) ?st0")
      case (Inl tr)
      with Pair Inr show ?thesis by (intro panic [of r w tr]) (simp_all add: page_round_def)
    next
      case st1: (Inr st1)
      show ?thesis
      proof (cases "NextPageToken r = []")
        case True
        with Pair Inr st1 show ?thesis by (intro last [of r w st1]) (simp_all add: page_round_def)
      next
        case False
        with Pair Inr st1 show ?thesis by (intro more [of r w st1]) (simp_all add: page_round_def)
      qed
    qed
  qed
qed

text \<open>The state after the messages of a listed page, when the round started in the invariant.\<close>

lemma after_page:
  assumes inv: "round_inv st"
    and run: "process_messages srv (Messages r)
               (st\<lparr>world := w, trace := trace st @ [ListCall tok (Inr r)]\<rparr>) = Inr st1"
  shows "senderMap st1 = aggregate (credits (trace st1))
       \<and> requested (trace st1) = listed (trace st1)
       \<and> \<not> listing_failed (trace st1)
       \<and> noticed (trace st1)"
proof -
  let ?call = "[ListCall tok (Inr r)]"
  from process_messages_Inr [OF run] obtain ext where ext:
    "trace st1 = (trace st @ ?call) @ ext" "requested ext = map MsgId (Messages r)"
    "listed ext = []" "\<not> listing_failed ext" "noticed ext"
    "senderMap st1 = foldl (\<lambda>m (s, i). upsert m s i) (senderMap st) (credits ext)"
    by auto
  have call: "credits ?call = []" "requested ?call = []" "listed ?call = map MsgId (Messages r)"
    "\<not> listing_failed ?call" "noticed ?call"
    by (simp_all add: credits_def credited_def fetched_def requested_def listed_def listing_failed_def)
  from inv have i: "senderMap st = aggregate (credits (trace st))"
    "requested (trace st) = listed (trace st)" "\<not> listing_failed (trace st)" "noticed (trace st)"
    by (simp_all add: round_inv_def)
  have "credits (trace st1) = credits (trace st) @ credits ext"
    unfolding ext(1) by (simp only: credits_append call(1) append_Nil2)
  then have "senderMap st1 = aggregate (credits (trace st1))"
    using ext(6) i(1) by (simp add: aggregate_append)
  moreover have "requested (trace st1) = listed (trace st1)"
    unfolding ext(1) by (simp only: requested_append listed_append ext(2,3) call(2,3) i(2) append_Nil2)
  moreover have "\<not> listing_failed (trace st1)"
    unfolding ext(1) by (simp only: listing_failed_append ext(4) call(4) i(3) simp_thms)
  moreover have "noticed (trace st @ ?call)"
    using i(4) call(5) by (rule noticed_append)
  then have "noticed (trace st1)"
    unfolding ext(1) using ext(5) by (rule noticed_append)
  ultimately show ?thesis by blast
qed

lemma round_inv_Again:
  assumes "round_inv st" and "page_round srv st = Again st'"
  shows "round_inv st'"
proof (cases srv st rule: page_round_cases)
  case (more r w st1)
  with assms(2) have "st' = st1\<lparr>pageToken := NextPageToken r\<rparr>" by simp
  then show ?thesis
    using after_page [OF assms(1) more(2)] by (simp add: round_inv_def)
qed (use assms(2) in simp_all)

lemma round_inv_Leave:
  assumes "round_inv st" and "page_round srv st = Leave (res, tr)"
  shows "left_with res tr"
proof (cases srv st rule: page_round_cases)
  case (failed err w)
  with assms(2) have res: "res = Err err" "tr = trace st @ [ListCall (pageToken st) (Inl err)]"
    by simp_all
  from assms(1) have "noticed (trace st)" by (simp add: round_inv_def)
  then have "noticed tr"
    unfolding res by (rule noticed_append) simp
  moreover have "listing_failed tr"
    unfolding res by (simp add: listing_failed_append) (simp add: listing_failed_def)
  ultimately show ?thesis
    by (simp add: left_with_def res)
next
  case (panic r w tr')
  with assms(2) have res: "res = Panicked" "tr = tr'" by simp_all
  let ?call = "[ListCall (pageToken st) (Inr r)]"
  from process_messages_Inl [OF panic(2)] obtain ext where ext:
    "tr' = (trace st @ ?call) @ ext" "\<not> listing_failed ext" "noticed ext"
    by auto
  have st: "\<not> listing_failed (trace st)" "noticed (trace st)"
    using assms(1) by (simp_all add: round_inv_def)
  have call: "\<not> listing_failed ?call" "noticed ?call"
    by (simp_all add: listing_failed_def)
  have "\<not> listing_failed tr'"
    unfolding ext(1) by (simp only: listing_failed_append ext(2) st(1) call(1) simp_thms)
  moreover have "noticed (trace st @ ?call)"
    using st(2) call(2) by (rule noticed_append)
  then have "noticed tr'"
    unfolding ext(1) using ext(3) by (rule noticed_append)
  ultimately show ?thesis by (simp add: left_with_def res)
next
  case (last r w st1)
  with assms(2) have res: "res = Ok (senderMap st1)" "tr = trace st1" by simp_all
  show ?thesis
    using after_page [OF assms(1) last(2)] by (simp add: left_with_def res)
next
  case (more r w st1)
  with assms(2) show ?thesis by simp
qed

subsection \<open>The page loop\<close>

lemma page_loop_left_with_aux:
  assumes "page_loop srv st = Some out"
  shows "round_inv st \<longrightarrow> left_with (fst out) (snd out)"
  using assms
proof (induction rule: page_loop.raw_induct [rotated 1, consumes 1, case_names round])
  case (round loop srv st out)
  show ?case
  proof
    assume inv: "round_inv st"
    show "left_with (fst out) (snd out)"
    proof (cases "page_round srv st")
      case (Again st')
      with round(2) have "loop srv st' = Some out" by simp
      then have "round_inv st' \<longrightarrow> left_with (fst out) (snd out)" by (rule round(1))
      moreover have "round_inv st'"
        using inv Again by (rule round_inv_Again)
      ultimately show ?thesis by simp
    next
      case (Leave r)
      with round(2) have "r = out" by simp
      with Leave have "page_round srv st = Leave (fst out, snd out)" by simp
      with inv show ?thesis by (rule round_inv_Leave)
    qed
  qed
qed

lemma page_loop_left_with:
  assumes "page_loop srv st = Some out" and "round_inv st"
  shows "left_with (fst out) (snd out)"
  using page_loop_left_with_aux [OF assms(1)] assms(2) by simp

text \<open>
  The loop need not end: against a service that always hands out another token the
  harvest never returns.
\<close>

lemma endless_round: "\<exists>st'. page_round endless st = Again st'"
  by (simp add: page_round_def endless_def)

lemma endless_loop_aux:
  assumes "page_loop srv st = Some out"
  shows "srv \<noteq> endless"
  using assms
proof (induction rule: page_loop.raw_induct [rotated 1, consumes 1, case_names round])
  case (round loop srv st out)
  show ?case
  proof
    assume srv: "srv = endless"
    then obtain st' where "page_round srv st = Again st'"
      using endless_round by blast
    with round(2) have "loop srv st' = Some out" by simp
    then have "srv \<noteq> endless" by (rule round(1))
    with srv show False by simp
  qed
qed

lemma endless_never_returns: "getSenderStats endless order () = None"
proof (cases "page_loop endless \<lparr>world = (), trace = [], senderMap = [], pageToken = []\<rparr>")
  case None
  then show ?thesis by (simp add: getSenderStats_def)
next
  case (Some out)
  then show ?thesis using endless_loop_aux by blast
qed

lemma getSenderStats_Some:
  assumes "getSenderStats srv order w = Some (res, tr)"
  obtains res0 where
    "page_loop srv \<lparr>world = w, trace = [], senderMap = [], pageToken = []\<rparr> = Some (res0, tr)"
    and "res = (case res0 of Ok m \<Rightarrow> Ok (range_order order (map snd m))
                 | Err e \<Rightarrow> Err e | Panicked \<Rightarrow> Panicked)"
    and "left_with res0 tr"
proof -
  let ?init = "\<lparr>world = w, trace = [], senderMap = [], pageToken = []\<rparr>"
  from assms obtain res0 where loop: "page_loop srv ?init = Some (res0, tr)"
    and res: "res = (case res0 of Ok m \<Rightarrow> Ok (range_order order (map snd m))
                 | Err e \<Rightarrow> Err e | Panicked \<Rightarrow> Panicked)"
    by (auto simp: getSenderStats_def split: option.splits result.splits)
  from page_loop_left_with [OF loop round_inv_init] have "left_with res0 tr" by simp
  with loop res show ?thesis by (rule that)
qed

text \<open>What a harvest that returns has done, for each way of returning.\<close>

lemma harvest_Ok:
  assumes "getSenderStats srv order w = Some (Ok stats, tr)"
  shows "stats = range_order order (map snd (aggregate (credits tr)))"
    and "requested tr = listed tr" and "\<not> listing_failed tr" and "noticed tr"
proof -
  from assms obtain res0 where
    res: "Ok stats = (case res0 of Ok m \<Rightarrow> Ok (range_order order (map snd m))
                 | Err e \<Rightarrow> Err e | Panicked \<Rightarrow> Panicked)"
    and left: "left_with res0 tr"
    by (rule getSenderStats_Some)
  from res obtain m where m: "res0 = Ok m" "stats = range_order order (map snd m)"
    by (cases res0) simp_all
  with left show "stats = range_order order (map snd (aggregate (credits tr)))"
    and "requested tr = listed tr" and "\<not> listing_failed tr" and "noticed tr"
    by (simp_all add: left_with_def)
qed

lemma harvest_Err:
  assumes "getSenderStats srv order w = Some (Err e, tr)"
  shows "listing_failed tr" and "noticed tr"
    and "tr \<noteq> [] \<and> (case last tr of ListCall tok (Inl e') \<Rightarrow> e' = e | _ \<Rightarrow> False)"
proof -
  from assms obtain res0 where
    res: "Err e = (case res0 of Ok m \<Rightarrow> Ok (range_order order (map snd m))
                 | Err e \<Rightarrow> Err e | Panicked \<Rightarrow> Panicked)"
    and left: "left_with res0 tr"
    by (rule getSenderStats_Some)
  from res have "res0 = Err e"
    by (cases res0) simp_all
  with left show "listing_failed tr" and "noticed tr"
    and "tr \<noteq> [] \<and> (case last tr of ListCall tok (Inl e') \<Rightarrow> e' = e | _ \<Rightarrow> False)"
    by (simp_all add: left_with_def)
qed

lemma harvest_Panicked:
  assumes "getSenderStats srv order w = Some (Panicked, tr)"
  shows "\<not> listing_failed tr \<and> noticed tr"
proof -
  from assms obtain res0 where
    res: "Panicked = (case res0 of Ok m \<Rightarrow> Ok (range_order order (map snd m))
                 | Err e \<Rightarrow> Err e | Panicked \<Rightarrow> Panicked)"
    and left: "left_with res0 tr"
    by (rule getSenderStats_Some)
  from res have "res0 = Panicked"
    by (cases res0) simp_all
  with left show ?thesis by (simp add: left_with_def)
qed

subsection \<open>Counting\<close>

lemma length_credited:
  "length (credited ms) = length (filter (\<lambda>(i, m). has_From m) ms)"
proof (induction ms)
  case Nil
  show ?case by (simp add: credited_def)
next
  case (Cons p ms)
  obtain i m where p: "p = (i, m)" by (cases p)
  have "length (credited (p # ms)) = (if sender_of m = None then 0 else 1) + length (credited ms)"
    by (simp add: credited_def p split: option.split)
  also have "\<dots> = (if has_From m then 1 else 0) + length (credited ms)"
    using sender_of_has_From [of m] by auto
  finally show ?case using Cons.IH by (simp add: p)
qed

lemma credited_Cons:
  "credited ((i, m) # ms) = (case sender_of m of None \<Rightarrow> [] | Some s \<Rightarrow> [(s, i)]) @ credited ms"
  by (simp add: credited_def)

lemma credited_ids: "set (map snd (credited ms)) \<subseteq> set (map fst ms)"
proof (induction ms)
  case Nil
  show ?case by (simp add: credited_def)
next
  case (Cons p ms)
  obtain i m where p: "p = (i, m)" by (cases p)
  show ?case
    unfolding p credited_Cons using Cons.IH by (auto split: option.splits)
qed

lemma distinct_credited: "distinct (map fst ms) \<Longrightarrow> distinct (map snd (credited ms))"
proof (induction ms)
  case Nil
  show ?case by (simp add: credited_def)
next
  case (Cons p ms)
  obtain i m where p: "p = (i, m)" by (cases p)
  from Cons.prems have i: "i \<notin> set (map fst ms)" and rest: "distinct (map fst ms)"
    by (simp_all add: p)
  have "i \<notin> set (map snd (credited ms))"
    using i credited_ids [of ms] by blast
  moreover have "credited (p # ms) = (case sender_of m of None \<Rightarrow> [] | Some s \<Rightarrow> [(s, i)]) @ credited ms"
    by (simp add: credited_def p)
  ultimately show ?case
    using Cons.IH [OF rest] by (simp split: option.split)
qed

lemma fetched_requested: "set (map fst (fetched tr)) \<subseteq> set (requested tr)"
proof (induction tr)
  case Nil
  show ?case by (simp add: fetched_def)
next
  case (Cons e tr)
  have "fetched (e # tr) = fetched [e] @ fetched tr" "requested (e # tr) = requested [e] @ requested tr"
    by (simp_all add: fetched_def requested_def)
  moreover have "set (map fst (fetched [e])) \<subseteq> set (requested [e])"
    by (cases e) (auto simp: fetched_def requested_def split: sum.splits)
  ultimately show ?case using Cons.IH by auto
qed

lemma distinct_fetched: "distinct (requested tr) \<Longrightarrow> distinct (map fst (fetched tr))"
proof (induction tr)
  case Nil
  show ?case by (simp add: fetched_def)
next
  case (Cons e tr)
  have split: "fetched (e # tr) = fetched [e] @ fetched tr"
    "requested (e # tr) = requested [e] @ requested tr"
    by (simp_all add: fetched_def requested_def)
  have one: "set (map fst (fetched [e])) \<subseteq> set (requested [e])" "distinct (map fst (fetched [e]))"
    by (cases e; auto simp: fetched_def requested_def split: sum.splits)+
  from Cons.prems have d: "distinct (requested tr)" "set (requested [e]) \<inter> set (requested tr) = {}"
    unfolding split(2) by simp_all
  have "set (map fst (fetched [e])) \<inter> set (map fst (fetched tr)) = {}"
    using one(1) d(2) fetched_requested [of tr] by blast
  then show ?case
    unfolding split(1) using one(2) Cons.IH [OF d(1)] by simp
qed

lemma distinct_ids_of: "distinct (map snd cs) \<Longrightarrow> distinct (ids_of s cs)"
  unfolding ids_of_def by (rule distinct_map_filter)

lemma distinct_credits:
  assumes "distinct (requested tr)"
  shows "distinct (map snd (credits tr))"
  unfolding credits_def using assms by (intro distinct_credited distinct_fetched)

lemma sum_list_mset_cong:
  fixes f :: "'a \<Rightarrow> int"
  assumes "mset xs = mset ys"
  shows "sum_list (map f xs) = sum_list (map f ys)"
proof -
  have "sum_list (map f xs) = sum_mset (image_mset f (mset xs))"
    by (simp flip: sum_mset_sum_list)
  also have "\<dots> = sum_mset (image_mset f (mset ys))"
    using assms by simp
  also have "\<dots> = sum_list (map f ys)"
    by (simp flip: sum_mset_sum_list)
  finally show ?thesis .
qed

lemma distinct_map_mset_cong:
  assumes "mset xs = mset ys"
  shows "distinct (map f xs) = distinct (map f ys)"
proof -
  have "mset (map f xs) = mset (map f ys)"
    using assms by simp
  then show ?thesis by (rule mset_eq_imp_distinct_iff)
qed

lemma aggregate_keys: "map fst (aggregate cs) = map (\<lambda>p. Email (snd p)) (aggregate cs)"
proof (rule map_cong [OF refl])
  fix p assume "p \<in> set (aggregate cs)"
  then have "(fst p, snd p) \<in> set (aggregate cs)" by simp
  from aggregate_entry [OF this] show "fst p = Email (snd p)" by simp
qed

lemma fetched_responses: "fetched (responses tr) = fetched tr"
proof (induction tr)
  case Nil
  show ?case by (simp add: responses_def)
next
  case (Cons e tr)
  then show ?case by (cases e) (simp_all add: responses_def fetched_def)
qed

lemma scan_headers_split:
  assumes "''From'' \<notin> set (map Name pre)" and "Name h = ''From''"
  shows "scan_headers (pre @ h # post) m i = upsert m (extractEmail (Value h)) i"
  using assms by (induction pre) auto

lemma scan_headers_none:
  assumes "''From'' \<notin> set (map Name hs)"
  shows "scan_headers hs m i = m"
  using assms by (induction hs) auto

subsection \<open>When the loop returns\<close>

text \<open>
  The loop returns what a round leaves it with, and goes on from the state a round
  hands on; so it returns whenever it gets, after any number of rounds, to a round that
  leaves it.
\<close>

lemma page_loop_Leave: "page_round srv st = Leave out \<Longrightarrow> page_loop srv st = Some out"
  by (subst page_loop.simps) simp

lemma page_loop_Again: "page_round srv st = Again st' \<Longrightarrow> page_loop srv st = page_loop srv st'"
  by (subst page_loop.simps) simp

lemma page_loop_after_rounds:
  "after_rounds n srv st = Some st' \<Longrightarrow> page_loop srv st = page_loop srv st'"
proof (induction n arbitrary: st)
  case 0
  then show ?case by simp
next
  case (Suc n)
  then obtain st1 where one: "page_round srv st = Again st1"
    and rest: "after_rounds n srv st1 = Some st'"
    by (auto split: round.splits)
  have "page_loop srv st = page_loop srv st1"
    using one by (rule page_loop_Again)
  also have "\<dots> = page_loop srv st'"
    using rest by (rule Suc.IH)
  finally show ?case .
qed

lemma page_loop_returns_after:
  assumes "after_rounds n srv st = Some st'" and "page_round srv st' = Leave out"
  shows "page_loop srv st = Some out"
  using page_loop_after_rounds [OF assms(1)] page_loop_Leave [OF assms(2)] by simp

lemma page_round_failed:
  assumes "List_Do srv (pageToken st) (world st) = (Inl err, w)"
  shows "page_round srv st = Leave (Err err, trace st @ [ListCall (pageToken st) (Inl err)])"
  using assms by (simp add: page_round_def)

lemma page_round_listed:
  assumes "List_Do srv (pageToken st) (world st) = (Inr r, w)"
    and "process_messages srv (Messages r)
           (st\<lparr>world := w, trace := trace st @ [ListCall (pageToken st) (Inr r)]\<rparr>) = Inr st1"
  shows "NextPageToken r = [] \<Longrightarrow> page_round srv st = Leave (Ok (senderMap st1), trace st1)"
    and "NextPageToken r \<noteq> [] \<Longrightarrow> page_round srv st = Again (st1\<lparr>pageToken := NextPageToken r\<rparr>)"
  using assms by (simp_all add: page_round_def)

lemma getSenderStats_of_loop:
  "page_loop srv \<lparr>world = w, trace = [], senderMap = [], pageToken = []\<rparr> = Some (Ok m, tr)
     \<Longrightarrow> getSenderStats srv order w = Some (Ok (range_order order (map snd m)), tr)"
  "page_loop srv \<lparr>world = w, trace = [], senderMap = [], pageToken = []\<rparr> = Some (Err e, tr)
     \<Longrightarrow> getSenderStats srv order w = Some (Err e, tr)"
  by (simp_all add: getSenderStats_def)

subsection \<open>The tokens of a run\<close>

lemma page_tokens_append: "page_tokens (a @ b) = page_tokens a @ page_tokens b"
  by (simp add: page_tokens_def)

lemma no_requests_no_tokens: "page_requests tr = [] \<Longrightarrow> page_tokens tr = []"
proof (induction tr)
  case Nil
  show ?case by (simp add: page_tokens_def)
next
  case (Cons e tr)
  have split: "page_requests (e # tr) = page_requests [e] @ page_requests tr"
    "page_tokens (e # tr) = page_tokens [e] @ page_tokens tr"
    by (simp_all add: page_requests_def page_tokens_def)
  from Cons.prems have "page_requests [e] = []" "page_requests tr = []"
    unfolding split(1) by simp_all
  moreover from this(1) have "page_tokens [e] = []"
    by (cases e) (simp_all add: page_requests_def page_tokens_def)
  ultimately show ?case
    unfolding split(2) using Cons.IH by simp
qed

lemma token_inv_init: "token_inv \<lparr>world = w, trace = [], senderMap = [], pageToken = []\<rparr>"
  by (simp add: token_inv_def page_requests_def page_tokens_def)

text \<open>The requests and tokens of the trace after a listed page and its messages.\<close>

lemma tokens_after_page:
  assumes "process_messages srv (Messages r)
             (st\<lparr>world := w, trace := trace st @ [ListCall tok (Inr r)]\<rparr>) = Inr st1"
  shows "page_requests (trace st1) = page_requests (trace st) @ [tok]"
    and "page_tokens (trace st1) = page_tokens (trace st) @ [NextPageToken r]"
proof -
  let ?call = "[ListCall tok (Inr r)]"
  from process_messages_Inr [OF assms] obtain ext where ext:
    "trace st1 = (trace st @ ?call) @ ext" "page_requests ext = []"
    by auto
  have call: "page_requests ?call = [tok]" "page_tokens ?call = [NextPageToken r]"
    by (simp_all add: page_requests_def page_tokens_def)
  have none: "page_tokens ext = []"
    using ext(2) by (rule no_requests_no_tokens)
  show "page_requests (trace st1) = page_requests (trace st) @ [tok]"
    unfolding ext(1) by (simp only: page_requests_append ext(2) call(1) append_Nil2)
  show "page_tokens (trace st1) = page_tokens (trace st) @ [NextPageToken r]"
    unfolding ext(1) by (simp only: page_tokens_append none call(2) append_Nil2)
qed

lemma token_inv_Again:
  assumes "token_inv st" and "page_round srv st = Again st'"
  shows "token_inv st'"
proof (cases srv st rule: page_round_cases)
  case (more r w st1)
  with assms(2) have st': "st' = st1\<lparr>pageToken := NextPageToken r\<rparr>" by simp
  from assms(1) have inv: "page_requests (trace st) @ [pageToken st] = [] # page_tokens (trace st)"
    "[] \<notin> set (page_tokens (trace st))"
    by (simp_all add: token_inv_def)
  show ?thesis
    using inv more(3) tokens_after_page [OF more(2)] by (simp add: token_inv_def st')
qed (use assms(2) in simp_all)

lemma token_inv_Leave:
  assumes "token_inv st" and "page_round srv st = Leave (res, tr)"
  shows "left_tokens res tr"
proof (cases srv st rule: page_round_cases)
  case (failed err w)
  with assms(2) have res: "res = Err err" "tr = trace st @ [ListCall (pageToken st) (Inl err)]"
    by simp_all
  have "page_requests tr = page_requests (trace st) @ [pageToken st]"
    "page_tokens tr = page_tokens (trace st)"
    unfolding res by (simp_all add: page_requests_def page_tokens_def)
  then show ?thesis
    using assms(1) by (simp add: left_tokens_def res token_inv_def)
next
  case (panic r w tr')
  with assms(2) show ?thesis by (simp add: left_tokens_def)
next
  case (last r w st1)
  with assms(2) have res: "res = Ok (senderMap st1)" "tr = trace st1" by simp_all
  from assms(1) have inv: "page_requests (trace st) @ [pageToken st] = [] # page_tokens (trace st)"
    "[] \<notin> set (page_tokens (trace st))"
    by (simp_all add: token_inv_def)
  have "page_requests tr = [] # page_tokens (trace st)" "page_tokens tr = page_tokens (trace st) @ [[]]"
    unfolding res using tokens_after_page [OF last(2)] inv(1) last(3) by simp_all
  then show ?thesis
    using inv(2) by (simp add: left_tokens_def res ended_without_token_def)
next
  case (more r w st1)
  with assms(2) show ?thesis by simp
qed

lemma page_loop_left_tokens_aux:
  assumes "page_loop srv st = Some out"
  shows "token_inv st \<longrightarrow> left_tokens (fst out) (snd out)"
  using assms
proof (induction rule: page_loop.raw_induct [rotated 1, consumes 1, case_names round])
  case (round loop srv st out)
  show ?case
  proof
    assume inv: "token_inv st"
    show "left_tokens (fst out) (snd out)"
    proof (cases "page_round srv st")
      case (Again st')
      with round(2) have "loop srv st' = Some out" by simp
      then have "token_inv st' \<longrightarrow> left_tokens (fst out) (snd out)" by (rule round(1))
      moreover have "token_inv st'"
        using inv Again by (rule token_inv_Again)
      ultimately show ?thesis by simp
    next
      case (Leave r)
      with round(2) have "r = out" by simp
      with Leave have "page_round srv st = Leave (fst out, snd out)" by simp
      with inv show ?thesis by (rule token_inv_Leave)
    qed
  qed
qed

lemma harvest_tokens:
  assumes "getSenderStats srv order w = Some (Ok stats, tr)"
  shows "ended_without_token tr"
proof -
  from assms obtain m where
    "page_loop srv \<lparr>world = w, trace = [], senderMap = [], pageToken = []\<rparr> = Some (Ok m, tr)"
    by (auto simp: getSenderStats_def split: option.splits result.splits)
  from page_loop_left_tokens_aux [OF this] token_inv_init [of w] show ?thesis
    by (simp add: left_tokens_def)
qed

text \<open>Conversely, a loop that returned got, after some number of rounds, to a round that left it.\<close>

lemma page_loop_returned:
  assumes "page_loop srv st = Some out"
  shows "\<exists>n st'. after_rounds n srv st = Some st' \<and> page_round srv st' = Leave out"
  using assms
proof (induction rule: page_loop.raw_induct [rotated 1, consumes 1, case_names round])
  case (round loop srv st out)
  show ?case
  proof (cases "page_round srv st")
    case (Again st1)
    with round(2) have "loop srv st1 = Some out" by simp
    then obtain n st' where "after_rounds n srv st1 = Some st'" "page_round srv st' = Leave out"
      using round(1) by blast
    with Again have "after_rounds (Suc n) srv st = Some st'" "page_round srv st' = Leave out"
      by simp_all
    then show ?thesis by blast
  next
    case (Leave r)
    with round(2) have "r = out" by simp
    with Leave have "after_rounds 0 srv st = Some st" "page_round srv st = Leave out"
      by simp_all
    then show ?thesis by blast
  qed
qed

lemma page_loop_returns_iff:
  "page_loop srv st = Some out
     \<longleftrightarrow> (\<exists>n st'. after_rounds n srv st = Some st' \<and> page_round srv st' = Leave out)"
  using page_loop_returned page_loop_returns_after by blast

section \<open>The harvest: claims\<close>

lemmas run_defs =
  getSenderStats_def page_loop.simps page_round_def process_message_def
  one_page_def three_pages_def listing_down_def entry_def metadata_def From_def start_def
  subject_only_def subject_only_trace_def from_alice_def
  alice_twice_def alice_AC_def alice_A_def bob_B_def
  upsert_def extractEmail_def slice_def

lemmas trace_defs =
  fetched_def requested_def listed_def page_requests_def listing_failed_def
  responses_def credits_def credited_def sender_of_def has_From_def first_From_def notice_def

text \<open>
  Claim C10. The body of the message loop, run on a message whose metadata fetch
  succeeded (and carries a payload), returns; if the headers are \<open>pre @ h # post\<close> with
  \<open>h\<close> the first header named \<open>From\<close>, the map afterwards is the map before with one
  insert-or-update for the address of \<open>h\<close>, whatever \<open>post\<close> holds, and the record of
  every other sender is as it was; if no header is named \<open>From\<close>, the map is unchanged.
\<close>

theorem first_From_header_only:
  assumes "Get_Do srv (MsgId msg) (world st) = (Inr message, w)"
    and "Payload message = Some part"
  shows "\<exists>st'. process_message srv msg st = Inr st'
          \<and> (\<forall>pre h post.
                Headers part = pre @ h # post \<and> ''From'' \<notin> set (map Name pre) \<and> Name h = ''From''
                \<longrightarrow> senderMap st' = upsert (senderMap st) (extractEmail (Value h)) (MsgId msg)
                    \<and> (\<forall>s. s \<noteq> extractEmail (Value h)
                          \<longrightarrow> map_of (senderMap st') s = map_of (senderMap st) s))
          \<and> (''From'' \<notin> set (map Name (Headers part)) \<longrightarrow> senderMap st' = senderMap st)"
proof -
  let ?st' = "st\<lparr>world := w, trace := trace st @ [GetCall (MsgId msg) (Inr message)],
                 senderMap := scan_headers (Headers part) (senderMap st) (MsgId msg)\<rparr>"
  have run: "process_message srv msg st = Inr ?st'"
    using assms by (simp add: process_message_def)
  have first: "senderMap ?st' = upsert (senderMap st) (extractEmail (Value h)) (MsgId msg)
      \<and> (\<forall>s. s \<noteq> extractEmail (Value h) \<longrightarrow> map_of (senderMap ?st') s = map_of (senderMap st) s)"
    if "Headers part = pre @ h # post" "''From'' \<notin> set (map Name pre)" "Name h = ''From''"
    for pre h post
  proof -
    have "senderMap ?st' = upsert (senderMap st) (extractEmail (Value h)) (MsgId msg)"
      using that by (simp add: scan_headers_split)
    then show ?thesis by (simp add: map_of_upsert)
  qed
  have none: "senderMap ?st' = senderMap st" if "''From'' \<notin> set (map Name (Headers part))"
    using that by (simp add: scan_headers_none)
  from run first none show ?thesis by blast
qed

theorem first_From_header_only_witness:
  "(\<exists>st'. process_message (one_page [(''A'', Inr (from_alice ''A''))]) (entry ''A'') start = Inr st'
          \<and> senderMap st' = [(''a@x.com'', alice_A)])
   \<and> (\<exists>st'. process_message (one_page [(''A'', Inr subject_only)]) (entry ''A'') start = Inr st'
          \<and> senderMap st' = [])"
proof -
  let ?to = "\<lparr>Name = ''To'', Value = ''me@x.com''\<rparr>"
  let ?hs = "[?to, From ''Alice <a@x.com>'', From ''Bob <b@y.org>'']"
  have g1: "Get_Do (one_page [(''A'', Inr (from_alice ''A''))]) (MsgId (entry ''A'')) (world start)
              = (Inr (from_alice ''A''), ())"
    by (simp add: one_page_def entry_def)
  have p1: "Payload (from_alice ''A'') = Some \<lparr>Headers = ?hs\<rparr>"
    by (simp add: from_alice_def metadata_def)
  from first_From_header_only [OF g1 p1] obtain s1 where
    s1: "process_message (one_page [(''A'', Inr (from_alice ''A''))]) (entry ''A'') start = Inr s1"
    and h1: "\<And>pre h post. Headers \<lparr>Headers = ?hs\<rparr> = pre @ h # post
        \<Longrightarrow> ''From'' \<notin> set (map Name pre) \<Longrightarrow> Name h = ''From''
        \<Longrightarrow> senderMap s1 = upsert (senderMap start) (extractEmail (Value h)) (MsgId (entry ''A''))"
    by blast
  have "senderMap s1
          = upsert (senderMap start) (extractEmail (Value (From ''Alice <a@x.com>''))) (MsgId (entry ''A''))"
    by (rule h1 [of "[?to]" _ "[From ''Bob <b@y.org>'']"]) (simp_all add: From_def)
  then have r1: "senderMap s1 = [(''a@x.com'', alice_A)]"
    by (simp add: run_defs)
  have g2: "Get_Do (one_page [(''A'', Inr subject_only)]) (MsgId (entry ''A'')) (world start)
              = (Inr subject_only, ())"
    by (simp add: one_page_def entry_def)
  have p2: "Payload subject_only = Some \<lparr>Headers = [\<lparr>Name = ''Subject'', Value = ''hello''\<rparr>]\<rparr>"
    by (simp add: subject_only_def metadata_def)
  from first_From_header_only [OF g2 p2] obtain s2 where
    s2: "process_message (one_page [(''A'', Inr subject_only)]) (entry ''A'') start = Inr s2"
    and h2: "''From'' \<notin> set (map Name (Headers \<lparr>Headers = [\<lparr>Name = ''Subject'', Value = ''hello''\<rparr>]\<rparr>))
        \<Longrightarrow> senderMap s2 = senderMap start"
    by blast
  have "senderMap s2 = senderMap start"
    by (rule h2) simp
  then have r2: "senderMap s2 = []"
    by (simp add: start_def)
  from s1 r1 s2 r2 show ?thesis by blast
qed

text \<open>
  Claim C4 as written: the counts add up to the number of messages whose metadata
  fetch succeeded. A store of one message without a \<open>From\<close> header: its metadata is
  fetched, and the harvest returns no record at all.
\<close>

theorem fetched_without_From_counterexample:
  "getSenderStats (one_page [(''A'', Inr subject_only)]) [] () = Some (Ok [], subject_only_trace)
   \<and> fetched subject_only_trace = [(''A'', subject_only)]"
  by (simp add: run_defs trace_defs)

text \<open>
  Claim C4, amended. When the harvest returns its records, their counts add up to the
  number of messages whose metadata fetch succeeded and whose headers include one named
  \<open>From\<close>. Messages whose fetch failed are not among the fetched ones, and fetched
  messages without a \<open>From\<close> header are not counted either.
\<close>

theorem counts_add_up:
  assumes "getSenderStats srv order w = Some (Ok stats, tr)"
  shows "sum_list (map Count stats) = int (length (filter (\<lambda>(i, m). has_From m) (fetched tr)))"
proof -
  let ?m = "aggregate (credits tr)"
  have stats: "stats = range_order order (map snd ?m)"
    using assms by (rule harvest_Ok)
  have "mset stats = mset (map snd ?m)"
    unfolding stats by (rule mset_range_order)
  then have "sum_list (map Count stats) = sum_list (map Count (map snd ?m))"
    by (rule sum_list_mset_cong)
  also have "\<dots> = sum_list (map (\<lambda>p. Count (snd p)) ?m)"
    by (simp add: comp_def)
  also have "\<dots> = int (length (credits tr))"
    by (rule sum_aggregate)
  also have "\<dots> = int (length (filter (\<lambda>(i, m). has_From m) (fetched tr)))"
    by (simp add: credits_def length_credited)
  finally show ?thesis .
qed

theorem counts_add_up_witness:
  "\<exists>tr. getSenderStats
          (one_page [(''A'', Inr (from_alice ''A'')), (''B'', Inl ''timeout''), (''C'', Inr subject_only)])
          [] () = Some (Ok [alice_A], tr)
      \<and> sum_list (map Count [alice_A]) = int (length (filter (\<lambda>(i, m). has_From m) (fetched tr)))
      \<and> length (requested tr) = 3 \<and> length (fetched tr) = 2 \<and> sum_list (map Count [alice_A]) = 1"
proof -
  let ?srv = "one_page [(''A'', Inr (from_alice ''A'')), (''B'', Inl ''timeout''), (''C'', Inr subject_only)]"
  let ?page = "\<lparr>Messages = [entry ''A'', entry ''B'', entry ''C''], NextPageToken = []\<rparr>"
  let ?tr = "[ListCall [] (Inr ?page), GetCall ''A'' (Inr (from_alice ''A'')),
              GetCall ''B'' (Inl ''timeout''), notice ''B'', GetCall ''C'' (Inr (metadata ''A'' [\<lparr>Name = ''Subject'', Value = ''hello''\<rparr>]))]"
  have run: "getSenderStats ?srv [] () = Some (Ok [alice_A], ?tr)"
    by (simp add: run_defs notice_def)
  have "length (requested ?tr) = 3" "length (fetched ?tr) = 2" "sum_list (map Count [alice_A]) = 1"
    by (simp_all add: trace_defs alice_A_def)
  with run counts_add_up [OF run] show ?thesis by blast
qed

text \<open>
  Claim C5 as written: the message IDs of a record are unique. Nothing in the harvest
  removes duplicates: when the listing names the message \<open>A\<close> twice, the record of its
  sender holds \<open>A\<close> twice.
\<close>

theorem duplicate_listing_counterexample:
  "map_option fst
     (getSenderStats (one_page [(''A'', Inr (from_alice ''A'')), (''A'', Inr (from_alice ''A''))]) [] ())
     = Some (Ok [alice_twice])
   \<and> Ids alice_twice = [''A'', ''A'']"
  by (simp add: run_defs)

text \<open>
  Claim C5, amended. For every record that the harvest returns, \<open>Count\<close> is the
  length of \<open>Ids\<close>, and \<open>Ids\<close> are the IDs credited to the record's sender in the order
  in which they were credited; they are pairwise distinct provided the listing named no
  message twice. No two records have the same sender. The same holds after every
  insert-or-update step, that is for the map built from any number \<open>n\<close> of the credits
  of the run.
\<close>

theorem sender_records_invariant:
  assumes "getSenderStats srv order w = Some (Ok stats, tr)"
  shows "(\<forall>r \<in> set stats.
            Count r = int (length (Ids r))
            \<and> Ids r = ids_of (Email r) (credits tr)
            \<and> (distinct (listed tr) \<longrightarrow> distinct (Ids r)))
       \<and> distinct (map Email stats)
       \<and> (\<forall>n \<le> length (credits tr). \<forall>(s, r) \<in> set (aggregate (take n (credits tr))).
            Email r = s
            \<and> Count r = int (length (Ids r))
            \<and> Ids r = ids_of s (take n (credits tr))
            \<and> (distinct (listed tr) \<longrightarrow> distinct (Ids r)))"
proof -
  let ?cs = "credits tr"
  have stats: "stats = range_order order (map snd (aggregate ?cs))"
    and all: "requested tr = listed tr"
    using assms by (rule harvest_Ok)+
  have perm: "mset stats = mset (map snd (aggregate ?cs))"
    unfolding stats by (rule mset_range_order)
  have ids: "distinct (map snd ?cs)" if "distinct (listed tr)"
    using that all by (intro distinct_credits) simp
  have step: "Email r = s \<and> Count r = int (length (Ids r)) \<and> Ids r = ids_of s (take n ?cs)
      \<and> (distinct (listed tr) \<longrightarrow> distinct (Ids r))"
    if "(s, r) \<in> set (aggregate (take n ?cs))" for s r n
  proof -
    from aggregate_entry [OF that]
    have r: "r = \<lparr>Email = s, Count = int (length (ids_of s (take n ?cs))), Ids = ids_of s (take n ?cs)\<rparr>"
      by simp
    have "distinct (ids_of s (take n ?cs))" if "distinct (listed tr)"
    proof -
      have "distinct (take n (map snd ?cs))"
        using ids [OF that] by (rule distinct_take)
      then have "distinct (map snd (take n ?cs))"
        by (simp add: take_map)
      then show ?thesis by (rule distinct_ids_of)
    qed
    then show ?thesis unfolding r by simp
  qed
  have final: "Count r = int (length (Ids r)) \<and> Ids r = ids_of (Email r) ?cs
      \<and> (distinct (listed tr) \<longrightarrow> distinct (Ids r))"
    if "r \<in> set stats" for r
  proof -
    from that perm have "r \<in> set (map snd (aggregate ?cs))"
      by (metis set_mset_mset)
    then obtain s where mem: "(s, r) \<in> set (aggregate ?cs)"
      by auto
    have whole: "take (length ?cs) ?cs = ?cs"
      by simp
    from step [of s r "length ?cs", unfolded whole, OF mem] show ?thesis by blast
  qed
  have "distinct (map Email (map snd (aggregate ?cs)))"
    using distinct_aggregate [of ?cs] by (simp add: aggregate_keys comp_def)
  then have "distinct (map Email stats)"
    by (simp only: distinct_map_mset_cong [OF perm, of Email])
  with final step show ?thesis by blast
qed

theorem sender_records_invariant_witness:
  "map_option fst
     (getSenderStats (three_pages [From ''Alice <a@x.com>''] [From ''b@y.org''] [From ''a@x.com'']) [] ())
     = Some (Ok [alice_AC, bob_B])
   \<and> Count alice_AC = int (length (Ids alice_AC)) \<and> distinct (Ids alice_AC)
   \<and> Count bob_B = int (length (Ids bob_B)) \<and> distinct (Ids bob_B)
   \<and> distinct (map Email [alice_AC, bob_B])"
proof -
  let ?srv = "three_pages [From ''Alice <a@x.com>''] [From ''b@y.org''] [From ''a@x.com'']"
  let ?tr = "[ListCall [] (Inr \<lparr>Messages = [entry ''A'', entry ''B''], NextPageToken = ''p2''\<rparr>),
              GetCall ''A'' (Inr (metadata ''A'' [From ''Alice <a@x.com>''])),
              GetCall ''B'' (Inr (metadata ''B'' [From ''b@y.org''])),
              ListCall ''p2'' (Inr \<lparr>Messages = [entry ''C''], NextPageToken = ''p3''\<rparr>),
              GetCall ''C'' (Inr (metadata ''C'' [From ''a@x.com''])),
              ListCall ''p3'' (Inr \<lparr>Messages = [], NextPageToken = []\<rparr>)]"
  have run: "getSenderStats ?srv [] () = Some (Ok [alice_AC, bob_B], ?tr)"
    by (simp add: run_defs)
  have listing: "distinct (listed ?tr)"
    by (simp add: listed_def entry_def)
  from sender_records_invariant [OF run]
  have each: "\<forall>r \<in> set [alice_AC, bob_B].
            Count r = int (length (Ids r))
            \<and> Ids r = ids_of (Email r) (credits ?tr)
            \<and> (distinct (listed ?tr) \<longrightarrow> distinct (Ids r))"
    and senders: "distinct (map Email [alice_AC, bob_B])"
    by blast+
  have "alice_AC \<in> set [alice_AC, bob_B]" "bob_B \<in> set [alice_AC, bob_B]"
    by simp_all
  with each listing
  have "Count alice_AC = int (length (Ids alice_AC)) \<and> distinct (Ids alice_AC)"
    and "Count bob_B = int (length (Ids bob_B)) \<and> distinct (Ids bob_B)"
    by blast+
  with run senders show ?thesis by simp
qed

text \<open>
  Claim C6. From any state, a round whose listing succeeded and whose messages were
  processed ends the loop exactly when the page carries no continuation token: without
  a token the loop returns the records there and then, with a token it goes on as the
  loop does from the next state, which asks for that token. So the harvest returns its
  records as soon as it has got, after any number \<open>n\<close> of rounds, to a page without a
  token; and every harvest that returned its records received, as its last page and not
  before, a page without a token, each request having carried the token of the page
  before. On the store of three pages \<open>[A, B]\<close>, \<open>[C]\<close>, \<open>[]\<close>, whatever the headers of
  the three messages and whatever the order of \<open>range\<close>, the harvest returns; it has
  made exactly the three page requests (without a token, with \<open>p2\<close>, with \<open>p3\<close>), has
  requested the metadata of \<open>A\<close>, \<open>B\<close> and \<open>C\<close>, and returns the records of the
  aggregate of what \<open>A\<close>, \<open>B\<close> and \<open>C\<close> are credited for, in the order of \<open>range\<close>.
\<close>

theorem page_loop_ends_without_token:
  "(List_Do srv (pageToken st) (world st) = (Inr r, w')
      \<and> process_messages srv (Messages r)
           (st\<lparr>world := w', trace := trace st @ [ListCall (pageToken st) (Inr r)]\<rparr>) = Inr st1
      \<longrightarrow> (NextPageToken r = []
            \<and> page_round srv st = Leave (Ok (senderMap st1), trace st1)
            \<and> page_loop srv st = Some (Ok (senderMap st1), trace st1))
        \<or> (NextPageToken r \<noteq> []
            \<and> page_round srv st = Again (st1\<lparr>pageToken := NextPageToken r\<rparr>)
            \<and> page_loop srv st = page_loop srv (st1\<lparr>pageToken := NextPageToken r\<rparr>)))
   \<and> (after_rounds n srv \<lparr>world = w, trace = [], senderMap = [], pageToken = []\<rparr> = Some st
      \<and> List_Do srv (pageToken st) (world st) = (Inr r, w')
      \<and> process_messages srv (Messages r)
           (st\<lparr>world := w', trace := trace st @ [ListCall (pageToken st) (Inr r)]\<rparr>) = Inr st1
      \<and> NextPageToken r = []
      \<longrightarrow> getSenderStats srv order w
            = Some (Ok (range_order order (map snd (senderMap st1))), trace st1))
   \<and> (getSenderStats srv order w = Some (Ok stats, tr) \<longrightarrow> ended_without_token tr)
   \<and> (\<exists>tr. getSenderStats (three_pages hA hB hC) order ()
              = Some (Ok (range_order order (map snd (aggregate (credited
                   [(''A'', metadata ''A'' hA), (''B'', metadata ''B'' hB), (''C'', metadata ''C'' hC)])))), tr)
          \<and> page_requests tr = [[], ''p2'', ''p3'']
          \<and> requested tr = [''A'', ''B'', ''C''])"
proof (intro conjI impI)
  assume a: "List_Do srv (pageToken st) (world st) = (Inr r, w')
      \<and> process_messages srv (Messages r)
           (st\<lparr>world := w', trace := trace st @ [ListCall (pageToken st) (Inr r)]\<rparr>) = Inr st1"
  show "(NextPageToken r = []
            \<and> page_round srv st = Leave (Ok (senderMap st1), trace st1)
            \<and> page_loop srv st = Some (Ok (senderMap st1), trace st1))
        \<or> (NextPageToken r \<noteq> []
            \<and> page_round srv st = Again (st1\<lparr>pageToken := NextPageToken r\<rparr>)
            \<and> page_loop srv st = page_loop srv (st1\<lparr>pageToken := NextPageToken r\<rparr>))"
  proof (cases "NextPageToken r = []")
    case True
    with a have "page_round srv st = Leave (Ok (senderMap st1), trace st1)"
      by (simp add: page_round_listed)
    with True show ?thesis by (simp add: page_loop_Leave)
  next
    case False
    with a have "page_round srv st = Again (st1\<lparr>pageToken := NextPageToken r\<rparr>)"
      by (simp add: page_round_listed)
    with False show ?thesis by (simp add: page_loop_Again)
  qed
next
  assume a: "after_rounds n srv \<lparr>world = w, trace = [], senderMap = [], pageToken = []\<rparr> = Some st
      \<and> List_Do srv (pageToken st) (world st) = (Inr r, w')
      \<and> process_messages srv (Messages r)
           (st\<lparr>world := w', trace := trace st @ [ListCall (pageToken st) (Inr r)]\<rparr>) = Inr st1
      \<and> NextPageToken r = []"
  then have "page_round srv st = Leave (Ok (senderMap st1), trace st1)"
    by (simp add: page_round_listed)
  with a have "page_loop srv \<lparr>world = w, trace = [], senderMap = [], pageToken = []\<rparr>
                 = Some (Ok (senderMap st1), trace st1)"
    by (intro page_loop_returns_after [of n srv _ st]) simp_all
  then show "getSenderStats srv order w
            = Some (Ok (range_order order (map snd (senderMap st1))), trace st1)"
    by (rule getSenderStats_of_loop)
next
  assume "getSenderStats srv order w = Some (Ok stats, tr)"
  then show "ended_without_token tr" by (rule harvest_tokens)
next
  let ?tr = "[ListCall [] (Inr \<lparr>Messages = [entry ''A'', entry ''B''], NextPageToken = ''p2''\<rparr>),
              GetCall ''A'' (Inr (metadata ''A'' hA)),
              GetCall ''B'' (Inr (metadata ''B'' hB)),
              ListCall ''p2'' (Inr \<lparr>Messages = [entry ''C''], NextPageToken = ''p3''\<rparr>),
              GetCall ''C'' (Inr (metadata ''C'' hC)),
              ListCall ''p3'' (Inr \<lparr>Messages = [], NextPageToken = []\<rparr>)]"
  let ?m = "scan_headers hC (scan_headers hB (scan_headers hA [] ''A'') ''B'') ''C''"
  have run: "getSenderStats (three_pages hA hB hC) order () = Some (Ok (range_order order (map snd ?m)), ?tr)"
    by (simp add: getSenderStats_def page_loop.simps page_round_def process_message_def
        three_pages_def entry_def metadata_def)
  have "credited [(''A'', metadata ''A'' hA), (''B'', metadata ''B'' hB), (''C'', metadata ''C'' hC)]
          = credited [(''A'', metadata ''A'' hA)] @ credited [(''B'', metadata ''B'' hB)]
            @ credited [(''C'', metadata ''C'' hC)]"
    by (simp add: credited_def)
  moreover have "foldl (\<lambda>m (s, i). upsert m s i) m (credited [(i, metadata i hs)]) = scan_headers hs m i"
    for m i hs
    by (simp add: credited_def sender_of_def metadata_def scan_headers_first_From split: option.split)
  ultimately have "aggregate (credited
      [(''A'', metadata ''A'' hA), (''B'', metadata ''B'' hB), (''C'', metadata ''C'' hC)]) = ?m"
    by (simp add: aggregate_def)
  moreover have "page_requests ?tr = [[], ''p2'', ''p3'']" "requested ?tr = [''A'', ''B'', ''C'']"
    by (simp_all add: page_requests_def requested_def)
  ultimately show "\<exists>tr. getSenderStats (three_pages hA hB hC) order ()
              = Some (Ok (range_order order (map snd (aggregate (credited
                   [(''A'', metadata ''A'' hA), (''B'', metadata ''B'' hB), (''C'', metadata ''C'' hC)])))), tr)
          \<and> page_requests tr = [[], ''p2'', ''p3'']
          \<and> requested tr = [''A'', ''B'', ''C'']"
    using run by simp
qed

text \<open>
  On the store of three pages with senders for \<open>A\<close>, \<open>B\<close> and \<open>C\<close>: the first round
  hands on the token \<open>p2\<close>; after two rounds the third page comes without a token and
  the harvest returns; the tokens received were \<open>p2\<close>, \<open>p3\<close> and none.
\<close>

theorem page_loop_ends_without_token_witness:
  "page_round (three_pages [From ''Alice <a@x.com>''] [From ''b@y.org''] [From ''a@x.com'']) start
     = Again \<lparr>world = (),
              trace = [ListCall [] (Inr \<lparr>Messages = [entry ''A'', entry ''B''], NextPageToken = ''p2''\<rparr>),
                       GetCall ''A'' (Inr (metadata ''A'' [From ''Alice <a@x.com>''])),
                       GetCall ''B'' (Inr (metadata ''B'' [From ''b@y.org'']))],
              senderMap = [(''a@x.com'', alice_A), (''b@y.org'', bob_B)],
              pageToken = ''p2''\<rparr>
   \<and> after_rounds (Suc (Suc 0))
        (three_pages [From ''Alice <a@x.com>''] [From ''b@y.org''] [From ''a@x.com'']) start
       = Some \<lparr>world = (),
              trace = [ListCall [] (Inr \<lparr>Messages = [entry ''A'', entry ''B''], NextPageToken = ''p2''\<rparr>),
                       GetCall ''A'' (Inr (metadata ''A'' [From ''Alice <a@x.com>''])),
                       GetCall ''B'' (Inr (metadata ''B'' [From ''b@y.org''])),
                       ListCall ''p2'' (Inr \<lparr>Messages = [entry ''C''], NextPageToken = ''p3''\<rparr>),
                       GetCall ''C'' (Inr (metadata ''C'' [From ''a@x.com'']))],
              senderMap = [(''a@x.com'', alice_AC), (''b@y.org'', bob_B)],
              pageToken = ''p3''\<rparr>
   \<and> (\<exists>tr. getSenderStats (three_pages [From ''Alice <a@x.com>''] [From ''b@y.org''] [From ''a@x.com'']) [1] ()
              = Some (Ok [bob_B, alice_AC], tr)
          \<and> ended_without_token tr
          \<and> page_tokens tr = [''p2'', ''p3'', []]
          \<and> page_requests tr = [[], ''p2'', ''p3''])"
proof -
  let ?srv = "three_pages [From ''Alice <a@x.com>''] [From ''b@y.org''] [From ''a@x.com'']"
  let ?r = "\<lparr>Messages = [entry ''A'', entry ''B''], NextPageToken = ''p2''\<rparr>"
  let ?t1 = "[ListCall [] (Inr ?r),
              GetCall ''A'' (Inr (metadata ''A'' [From ''Alice <a@x.com>''])),
              GetCall ''B'' (Inr (metadata ''B'' [From ''b@y.org'']))]"
  let ?st1 = "\<lparr>world = (), trace = ?t1,
              senderMap = [(''a@x.com'', alice_A), (''b@y.org'', bob_B)], pageToken = []\<rparr>"
  let ?t2 = "?t1 @ [ListCall ''p2'' (Inr \<lparr>Messages = [entry ''C''], NextPageToken = ''p3''\<rparr>),
                    GetCall ''C'' (Inr (metadata ''C'' [From ''a@x.com'']))]"
  let ?st2 = "\<lparr>world = (), trace = ?t2,
              senderMap = [(''a@x.com'', alice_AC), (''b@y.org'', bob_B)], pageToken = ''p3''\<rparr>"
  let ?r3 = "\<lparr>Messages = [], NextPageToken = []\<rparr>"
  let ?t3 = "?t2 @ [ListCall ''p3'' (Inr ?r3)]"
  let ?st3 = "\<lparr>world = (), trace = ?t3,
              senderMap = [(''a@x.com'', alice_AC), (''b@y.org'', bob_B)], pageToken = ''p3''\<rparr>"
  have page: "List_Do ?srv (pageToken start) (world start) = (Inr ?r, ())"
    by (simp add: three_pages_def start_def)
  have msgs: "process_messages ?srv (Messages ?r)
                (start\<lparr>world := (), trace := trace start @ [ListCall (pageToken start) (Inr ?r)]\<rparr>) = Inr ?st1"
    by (simp add: run_defs)
  from page_loop_ends_without_token
    [where srv = ?srv and st = start and r = ?r and w' = "()" and ?st1.0 = ?st1]
    page msgs
  have round: "page_round ?srv start = Again (?st1\<lparr>pageToken := NextPageToken ?r\<rparr>)"
    by simp
  have two: "after_rounds (Suc (Suc 0)) ?srv \<lparr>world = (), trace = [], senderMap = [], pageToken = []\<rparr>
               = Some ?st2"
    by (simp add: run_defs)
  have page3: "List_Do ?srv (pageToken ?st2) (world ?st2) = (Inr ?r3, ())"
    by (simp add: three_pages_def)
  have msgs3: "process_messages ?srv (Messages ?r3)
                (?st2\<lparr>world := (), trace := trace ?st2 @ [ListCall (pageToken ?st2) (Inr ?r3)]\<rparr>) = Inr ?st3"
    by simp
  from page_loop_ends_without_token
    [where srv = ?srv and st = ?st2 and r = ?r3 and w' = "()" and ?st1.0 = ?st3
       and n = "Suc (Suc 0)" and w = "()" and order = "[1]"]
    two page3 msgs3
  have run: "getSenderStats ?srv [1] () = Some (Ok (range_order [1] (map snd (senderMap ?st3))), trace ?st3)"
    by simp
  have stats: "range_order [1] (map snd (senderMap ?st3)) = [bob_B, alice_AC]"
    by simp
  from page_loop_ends_without_token
    [where srv = ?srv and w = "()" and order = "[1]" and stats = "[bob_B, alice_AC]" and tr = ?t3]
    run stats
  have ended: "ended_without_token ?t3"
    by simp
  have "page_tokens ?t3 = [''p2'', ''p3'', []]" "page_requests ?t3 = [[], ''p2'', ''p3'']"
    by (simp_all add: page_tokens_def page_requests_def)
  with run stats ended
  have "\<exists>tr. getSenderStats ?srv [1] () = Some (Ok [bob_B, alice_AC], tr)
          \<and> ended_without_token tr
          \<and> page_tokens tr = [''p2'', ''p3'', []]
          \<and> page_requests tr = [[], ''p2'', ''p3'']"
    by simp
  with round two show ?thesis
    by (simp add: start_def)
qed

text \<open>
  Claim C7. Whenever the harvest returns, it returns an error exactly when a
  page-listing call failed, and the error is that of the listing call, which is the last
  thing the run did; the value returned with an error holds no records (\<open>Err\<close> carries
  only the error, as \<open>return nil, err\<close> does). Every failed metadata request in the
  run is followed by its notice on the console, and when the records are returned,
  metadata has been requested for every listed message, whatever failed before. A
  failed metadata request leaves the message loop running, with the map as it was.
  And a failed listing does make the harvest return: from any state the loop returns
  the error of a listing call that fails, at once; so the harvest returns that error
  when it has got, after any number \<open>n\<close> of rounds, to a listing call that fails, and
  what it had aggregated until then is not returned.
\<close>

theorem harvest_fails_only_on_listing:
  "(getSenderStats srv order w = Some (res, tr)
      \<longrightarrow> ((\<exists>e. res = Err e) \<longleftrightarrow> listing_failed tr)
        \<and> (\<forall>e. res = Err e \<longrightarrow> tr \<noteq> [] \<and> (\<exists>tok. last tr = ListCall tok (Inl e)))
        \<and> noticed tr
        \<and> (\<forall>stats. res = Ok stats \<longrightarrow> requested tr = listed tr))
   \<and> (\<forall>msg st err w'. Get_Do srv (MsgId msg) (world st) = (Inl err, w')
        \<longrightarrow> process_message srv msg st
              = Inr (st\<lparr>world := w',
                        trace := trace st @ [GetCall (MsgId msg) (Inl err), notice (MsgId msg)]\<rparr>))
   \<and> (List_Do srv (pageToken st) (world st) = (Inl err, w')
        \<longrightarrow> page_loop srv st = Some (Err err, trace st @ [ListCall (pageToken st) (Inl err)]))
   \<and> (after_rounds n srv \<lparr>world = w, trace = [], senderMap = [], pageToken = []\<rparr> = Some st
        \<and> List_Do srv (pageToken st) (world st) = (Inl err, w')
        \<longrightarrow> getSenderStats srv order w
              = Some (Err err, trace st @ [ListCall (pageToken st) (Inl err)]))"
proof -
  have returned: "getSenderStats srv order w = Some (res, tr)
      \<longrightarrow> ((\<exists>e. res = Err e) \<longleftrightarrow> listing_failed tr)
        \<and> (\<forall>e. res = Err e \<longrightarrow> tr \<noteq> [] \<and> (\<exists>tok. last tr = ListCall tok (Inl e)))
        \<and> noticed tr
        \<and> (\<forall>stats. res = Ok stats \<longrightarrow> requested tr = listed tr)"
  proof
    assume run: "getSenderStats srv order w = Some (res, tr)"
    show "((\<exists>e. res = Err e) \<longleftrightarrow> listing_failed tr)
        \<and> (\<forall>e. res = Err e \<longrightarrow> tr \<noteq> [] \<and> (\<exists>tok. last tr = ListCall tok (Inl e)))
        \<and> noticed tr
        \<and> (\<forall>stats. res = Ok stats \<longrightarrow> requested tr = listed tr)"
    proof (cases res)
      case Panicked
      with run have "\<not> listing_failed tr \<and> noticed tr"
        by (intro harvest_Panicked) simp
      with Panicked show ?thesis by simp
    next
      case (Err e)
      with run have run': "getSenderStats srv order w = Some (Err e, tr)" by simp
      have failed: "listing_failed tr" and notices: "noticed tr"
        and ends: "tr \<noteq> [] \<and> (case last tr of ListCall tok (Inl e') \<Rightarrow> e' = e | _ \<Rightarrow> False)"
        using run' by (rule harvest_Err)+
      from ends have "\<exists>tok. last tr = ListCall tok (Inl e)"
        by (cases "last tr") (auto split: sum.splits)
      with Err failed notices ends show ?thesis by simp
    next
      case (Ok stats)
      with run have run': "getSenderStats srv order w = Some (Ok stats, tr)" by simp
      have "requested tr = listed tr" "\<not> listing_failed tr" "noticed tr"
        using run' by (rule harvest_Ok)+
      with Ok show ?thesis by simp
    qed
  qed
  have skipped: "\<forall>msg st err w'. Get_Do srv (MsgId msg) (world st) = (Inl err, w')
        \<longrightarrow> process_message srv msg st
              = Inr (st\<lparr>world := w',
                        trace := trace st @ [GetCall (MsgId msg) (Inl err), notice (MsgId msg)]\<rparr>)"
    by (simp add: process_message_def notice_def)
  have at_once: "List_Do srv (pageToken st) (world st) = (Inl err, w')
        \<longrightarrow> page_loop srv st = Some (Err err, trace st @ [ListCall (pageToken st) (Inl err)])"
  proof
    assume "List_Do srv (pageToken st) (world st) = (Inl err, w')"
    then have "page_round srv st = Leave (Err err, trace st @ [ListCall (pageToken st) (Inl err)])"
      by (rule page_round_failed)
    then show "page_loop srv st = Some (Err err, trace st @ [ListCall (pageToken st) (Inl err)])"
      by (rule page_loop_Leave)
  qed
  have later: "after_rounds n srv \<lparr>world = w, trace = [], senderMap = [], pageToken = []\<rparr> = Some st
        \<and> List_Do srv (pageToken st) (world st) = (Inl err, w')
        \<longrightarrow> getSenderStats srv order w
              = Some (Err err, trace st @ [ListCall (pageToken st) (Inl err)])"
  proof
    assume a: "after_rounds n srv \<lparr>world = w, trace = [], senderMap = [], pageToken = []\<rparr> = Some st
        \<and> List_Do srv (pageToken st) (world st) = (Inl err, w')"
    then have "page_round srv st = Leave (Err err, trace st @ [ListCall (pageToken st) (Inl err)])"
      by (intro page_round_failed) simp
    with a have "page_loop srv \<lparr>world = w, trace = [], senderMap = [], pageToken = []\<rparr>
                 = Some (Err err, trace st @ [ListCall (pageToken st) (Inl err)])"
      by (intro page_loop_returns_after [of n srv _ st]) simp_all
    then show "getSenderStats srv order w = Some (Err err, trace st @ [ListCall (pageToken st) (Inl err)])"
      by (rule getSenderStats_of_loop)
  qed
  show ?thesis
    by (intro conjI) (rule returned, rule skipped, rule at_once, rule later)
qed

text \<open>
  A page with a failed metadata request, whose harvest returns the records all the same;
  a listing that fails at once; and a listing that fails for the second page, after the
  message of the first page has been aggregated: the harvest returns the error, without
  records.
\<close>

theorem harvest_fails_only_on_listing_witness:
  "(\<exists>tr. getSenderStats
           (one_page [(''A'', Inr (from_alice ''A'')), (''B'', Inl ''timeout''), (''C'', Inr subject_only)])
           [] () = Some (Ok [alice_A], tr)
        \<and> \<not> listing_failed tr \<and> noticed tr \<and> requested tr = listed tr
        \<and> requested tr = [''A'', ''B'', ''C'']
        \<and> GetCall ''B'' (Inl ''timeout'') \<in> set tr)
   \<and> (\<exists>tr. getSenderStats listing_down [] () = Some (Err ''quota exceeded'', tr)
        \<and> listing_failed tr \<and> last tr = ListCall [] (Inl ''quota exceeded''))
   \<and> (\<exists>st. after_rounds (Suc 0) second_page_down start = Some st
        \<and> senderMap st = [(''a@x.com'', alice_A)]
        \<and> pageToken st = ''p2''
        \<and> getSenderStats second_page_down [] ()
            = Some (Err ''quota exceeded'', trace st @ [ListCall ''p2'' (Inl ''quota exceeded'')]))"
proof -
  let ?srv = "one_page [(''A'', Inr (from_alice ''A'')), (''B'', Inl ''timeout''), (''C'', Inr subject_only)]"
  let ?page = "\<lparr>Messages = [entry ''A'', entry ''B'', entry ''C''], NextPageToken = []\<rparr>"
  let ?tr = "[ListCall [] (Inr ?page), GetCall ''A'' (Inr (from_alice ''A'')),
              GetCall ''B'' (Inl ''timeout''), notice ''B'', GetCall ''C'' (Inr subject_only)]"
  have run: "getSenderStats ?srv [] () = Some (Ok [alice_A], ?tr)"
    by (simp add: run_defs notice_def)
  from harvest_fails_only_on_listing [where srv = ?srv and order = "[]" and w = "()"
      and res = "Ok [alice_A]" and tr = ?tr] run
  have "\<not> listing_failed ?tr" "noticed ?tr" "requested ?tr = listed ?tr"
    by simp_all
  moreover have "requested ?tr = [''A'', ''B'', ''C'']" "GetCall ''B'' (Inl ''timeout'') \<in> set ?tr"
    by (simp_all add: requested_def notice_def)
  ultimately have first: "\<exists>tr. getSenderStats ?srv [] () = Some (Ok [alice_A], tr)
        \<and> \<not> listing_failed tr \<and> noticed tr \<and> requested tr = listed tr
        \<and> requested tr = [''A'', ''B'', ''C'']
        \<and> GetCall ''B'' (Inl ''timeout'') \<in> set tr"
    using run by blast
  let ?tr' = "[ListCall [] (Inl ''quota exceeded'')]"
  have none: "after_rounds 0 listing_down \<lparr>world = (), trace = [], senderMap = [], pageToken = []\<rparr>
                = Some start"
    by (simp add: start_def)
  have fails: "List_Do listing_down (pageToken start) (world start) = (Inl ''quota exceeded'', ())"
    by (simp add: listing_down_def)
  from harvest_fails_only_on_listing [where srv = listing_down and order = "[]" and w = "()"
      and n = 0 and st = start and err = "''quota exceeded''" and w' = "()"] none fails
  have down: "getSenderStats listing_down [] () = Some (Err ''quota exceeded'', ?tr')"
    by (simp add: start_def)
  from harvest_fails_only_on_listing [where srv = listing_down and order = "[]" and w = "()"
      and res = "Err ''quota exceeded''" and tr = ?tr'] down
  have "listing_failed ?tr'"
    by simp
  moreover have "last ?tr' = ListCall [] (Inl ''quota exceeded'')"
    by simp
  ultimately have second: "\<exists>tr. getSenderStats listing_down [] () = Some (Err ''quota exceeded'', tr)
        \<and> listing_failed tr \<and> last tr = ListCall [] (Inl ''quota exceeded'')"
    using down by blast
  let ?m = "\<lparr>MsgId = ''A'', LabelIds = [],
             Payload = Some \<lparr>Headers = [\<lparr>Name = ''From'', Value = ''Alice <a@x.com>''\<rparr>]\<rparr>\<rparr>"
  let ?p1 = "\<lparr>Messages = [\<lparr>MsgId = ''A'', LabelIds = [], Payload = None\<rparr>], NextPageToken = ''p2''\<rparr>"
  let ?st = "\<lparr>world = (), trace = [ListCall [] (Inr ?p1), GetCall ''A'' (Inr ?m)],
             senderMap = [(''a@x.com'', alice_A)], pageToken = ''p2''\<rparr>"
  have one: "after_rounds (Suc 0) second_page_down
               \<lparr>world = (), trace = [], senderMap = [], pageToken = []\<rparr> = Some ?st"
    by (simp add: second_page_down_def run_defs)
  have fails2: "List_Do second_page_down (pageToken ?st) (world ?st) = (Inl ''quota exceeded'', ())"
    by (simp add: second_page_down_def)
  from harvest_fails_only_on_listing [where srv = second_page_down and order = "[]" and w = "()"
      and n = "Suc 0" and st = ?st and err = "''quota exceeded''" and w' = "()"] one fails2
  have later: "getSenderStats second_page_down [] ()
                 = Some (Err ''quota exceeded'', trace ?st @ [ListCall ''p2'' (Inl ''quota exceeded'')])"
    by simp
  have "after_rounds (Suc 0) second_page_down start = Some ?st"
    using one by (simp add: start_def)
  with later have third: "\<exists>st. after_rounds (Suc 0) second_page_down start = Some st
        \<and> senderMap st = [(''a@x.com'', alice_A)]
        \<and> pageToken st = ''p2''
        \<and> getSenderStats second_page_down [] ()
            = Some (Err ''quota exceeded'', trace st @ [ListCall ''p2'' (Inl ''quota exceeded'')])"
    by (intro exI [of _ ?st]) simp
  from first second third show ?thesis by blast
qed

text \<open>
  Claim C9. Two harvests that returned their records after the same sequence of page
  and metadata responses returned the same records, up to the order in which \<open>range\<close>
  handed them out: the same senders, each once, with the same count and the same IDs in
  the same order. In particular the harvest run again on the same service in the same
  state returns, after the same run, the same records, whatever the order of \<open>range\<close>.
\<close>

theorem harvest_deterministic:
  assumes "getSenderStats srv1 order1 w1 = Some (Ok stats1, tr1)"
    and "getSenderStats srv2 order2 w2 = Some (Ok stats2, tr2)"
    and "responses tr1 = responses tr2"
  shows "mset stats1 = mset stats2
       \<and> distinct (map Email stats1)
       \<and> (\<exists>stats. getSenderStats srv1 order2 w1 = Some (Ok stats, tr1) \<and> mset stats = mset stats1)"
proof -
  have s1: "stats1 = range_order order1 (map snd (aggregate (credits tr1)))"
    using assms(1) by (rule harvest_Ok)
  have s2: "stats2 = range_order order2 (map snd (aggregate (credits tr2)))"
    using assms(2) by (rule harvest_Ok)
  have "fetched tr1 = fetched tr2"
    using assms(3) fetched_responses [of tr1] fetched_responses [of tr2] by simp
  then have "credits tr1 = credits tr2"
    by (simp add: credits_def)
  then have same: "mset stats1 = mset stats2"
    unfolding s1 s2 by (simp add: mset_range_order)
  have p1: "mset stats1 = mset (map snd (aggregate (credits tr1)))"
    unfolding s1 by (rule mset_range_order)
  have "distinct (map Email (map snd (aggregate (credits tr1))))"
    using distinct_aggregate [of "credits tr1"] by (simp add: aggregate_keys comp_def)
  then have senders: "distinct (map Email stats1)"
    by (simp only: distinct_map_mset_cong [OF p1, of Email])
  from assms(1) obtain m where
    loop: "page_loop srv1 \<lparr>world = w1, trace = [], senderMap = [], pageToken = []\<rparr> = Some (Ok m, tr1)"
    and m: "stats1 = range_order order1 (map snd m)"
    by (auto simp: getSenderStats_def split: option.splits result.splits)
  have "getSenderStats srv1 order2 w1 = Some (Ok (range_order order2 (map snd m)), tr1)"
    using loop by (simp add: getSenderStats_def)
  moreover have "mset (range_order order2 (map snd m)) = mset stats1"
    unfolding m by (simp add: mset_range_order)
  ultimately have "\<exists>stats. getSenderStats srv1 order2 w1 = Some (Ok stats, tr1) \<and> mset stats = mset stats1"
    by blast
  with same senders show ?thesis by blast
qed

theorem harvest_deterministic_witness:
  "map_option fst
     (getSenderStats (three_pages [From ''Alice <a@x.com>''] [From ''b@y.org''] [From ''a@x.com'']) [] ())
     = Some (Ok [alice_AC, bob_B])
   \<and> map_option fst
     (getSenderStats (three_pages [From ''Alice <a@x.com>''] [From ''b@y.org''] [From ''a@x.com'']) [1] ())
     = Some (Ok [bob_B, alice_AC])
   \<and> mset [alice_AC, bob_B] = mset [bob_B, alice_AC]
   \<and> distinct (map Email [alice_AC, bob_B])"
proof -
  let ?srv = "three_pages [From ''Alice <a@x.com>''] [From ''b@y.org''] [From ''a@x.com'']"
  let ?tr = "[ListCall [] (Inr \<lparr>Messages = [entry ''A'', entry ''B''], NextPageToken = ''p2''\<rparr>),
              GetCall ''A'' (Inr (metadata ''A'' [From ''Alice <a@x.com>''])),
              GetCall ''B'' (Inr (metadata ''B'' [From ''b@y.org''])),
              ListCall ''p2'' (Inr \<lparr>Messages = [entry ''C''], NextPageToken = ''p3''\<rparr>),
              GetCall ''C'' (Inr (metadata ''C'' [From ''a@x.com''])),
              ListCall ''p3'' (Inr \<lparr>Messages = [], NextPageToken = []\<rparr>)]"
  have run1: "getSenderStats ?srv [] () = Some (Ok [alice_AC, bob_B], ?tr)"
    by (simp add: run_defs)
  have run2: "getSenderStats ?srv [1] () = Some (Ok [bob_B, alice_AC], ?tr)"
    by (simp add: run_defs)
  from harvest_deterministic [OF run1 run2 refl]
  have "mset [alice_AC, bob_B] = mset [bob_B, alice_AC]" "distinct (map Email [alice_AC, bob_B])"
    by blast+
  with run1 run2 show ?thesis by simp
qed

section \<open>Batch deletion: proofs\<close>

lemma isInTrash_iff: "isInTrash labels \<longleftrightarrow> ''TRASH'' \<in> set labels"
  by (induction labels) auto

lemma pauses_append: "pauses (a @ b) = pauses a @ pauses b"
  by (simp add: pauses_def)

text \<open>What one attempt does, by the response it gets.\<close>

lemma trash_one_failed:
  assumes "Trash_Do srv i (world st) = (Inl err, w)"
  shows "world (trash_one srv i st) = w"
    and "successCount (trash_one srv i st) = successCount st"
    and "deleteErrors (trash_one srv i st)
           = deleteErrors st @ [''failed to delete message '' @ i @ '': '' @ err]"
    and "trace (trash_one srv i st) = trace st @ [TrashCall i (Inl err)]"
  using assms by (simp_all add: trash_one_def)

lemma trash_one_not_trashed:
  assumes "Trash_Do srv i (world st) = (Inr email, w)" and "''TRASH'' \<notin> set (LabelIds email)"
  shows "world (trash_one srv i st) = w"
    and "successCount (trash_one srv i st) = successCount st"
    and "deleteErrors (trash_one srv i st)
           = deleteErrors st @ [''message '' @ i @ '' was not moved to trash successfully'']"
    and "trace (trash_one srv i st) = trace st @ [TrashCall i (Inr email), Slept 100]"
  using assms by (simp_all add: trash_one_def isInTrash_iff)

lemma trash_one_trashed:
  assumes "Trash_Do srv i (world st) = (Inr email, w)" and "''TRASH'' \<in> set (LabelIds email)"
  shows "world (trash_one srv i st) = w"
    and "successCount (trash_one srv i st) = successCount st + 1"
    and "deleteErrors (trash_one srv i st) = deleteErrors st"
    and "pauses (trace (trash_one srv i st)) = pauses (trace st) @ [100]"
  using assms by (simp_all add: trash_one_def isInTrash_iff pauses_def)

lemma trash_cases:
  obtains (failed) err w where "Trash_Do srv i x = (Inl err, w)"
  | (not_trashed) email w where "Trash_Do srv i x = (Inr email, w)" "''TRASH'' \<notin> set (LabelIds email)"
  | (trashed) email w where "Trash_Do srv i x = (Inr email, w)" "''TRASH'' \<in> set (LabelIds email)"
proof (cases "Trash_Do srv i x")
  case (Pair resp w)
  show ?thesis
  proof (cases resp)
    case (Inl err)
    with Pair show ?thesis by (intro failed [of err w]) simp
  next
    case (Inr email)
    with Pair show ?thesis
      by (cases "''TRASH'' \<in> set (LabelIds email)") (auto intro: not_trashed trashed)
  qed
qed

lemma failures_le_length: "remote_failures rs + not_trashed rs \<le> length rs"
proof (induction rs)
  case Nil
  show ?case by (simp add: remote_failures_def not_trashed_def)
next
  case (Cons r rs)
  then show ?case
    by (cases r) (simp_all add: remote_failures_def not_trashed_def)
qed

text \<open>
  The loop over the IDs, from any state: its counters and pauses in terms of the
  responses that the service gave.
\<close>

lemma trash_all_accounting:
  "length (trash_responses srv ids (world st)) = length ids
   \<and> successCount (trash_all srv ids st)
       = successCount st + int (length ids)
         - int (remote_failures (trash_responses srv ids (world st)))
         - int (not_trashed (trash_responses srv ids (world st)))
   \<and> length (deleteErrors (trash_all srv ids st))
       = length (deleteErrors st)
         + remote_failures (trash_responses srv ids (world st))
         + not_trashed (trash_responses srv ids (world st))
   \<and> pauses (trace (trash_all srv ids st))
       = pauses (trace st)
         @ replicate (length ids - remote_failures (trash_responses srv ids (world st))) 100"
proof (induction ids arbitrary: st)
  case Nil
  show ?case by (simp add: remote_failures_def not_trashed_def)
next
  case (Cons i ids)
  let ?st1 = "trash_one srv i st"
  let ?rest = "trash_responses srv ids (world ?st1)"
  note IH = Cons.IH [of ?st1]
  have bound: "remote_failures ?rest \<le> length ids"
    using failures_le_length [of ?rest] IH by simp
  show ?case
  proof (cases srv i "world st" rule: trash_cases)
    case (failed err w)
    have rs: "trash_responses srv (i # ids) (world st) = Inl err # ?rest"
      using failed trash_one_failed(1) [OF failed] by simp
    have k: "remote_failures (Inl err # ?rest) = Suc (remote_failures ?rest)"
      "not_trashed (Inl err # ?rest) = not_trashed ?rest"
      by (simp_all add: remote_failures_def not_trashed_def)
    have "pauses (trace ?st1) = pauses (trace st)"
      using trash_one_failed(4) [OF failed] by (simp add: pauses_def)
    then show ?thesis
      unfolding rs k using IH trash_one_failed(2,3) [OF failed] by simp
  next
    case (not_trashed email w)
    have rs: "trash_responses srv (i # ids) (world st) = Inr email # ?rest"
      using not_trashed trash_one_not_trashed(1) [OF not_trashed] by simp
    have k: "remote_failures (Inr email # ?rest) = remote_failures ?rest"
      "not_trashed (Inr email # ?rest) = Suc (not_trashed ?rest)"
      using not_trashed(2) by (simp_all add: remote_failures_def not_trashed_def)
    have "pauses (trace ?st1) = pauses (trace st) @ [100]"
      using trash_one_not_trashed(4) [OF not_trashed] by (simp add: pauses_def)
    moreover have "Suc (length ids) - remote_failures ?rest = Suc (length ids - remote_failures ?rest)"
      using bound by simp
    ultimately show ?thesis
      unfolding rs k using IH trash_one_not_trashed(2,3) [OF not_trashed]
      by (simp add: replicate_append_same)
  next
    case (trashed email w)
    have rs: "trash_responses srv (i # ids) (world st) = Inr email # ?rest"
      using trashed trash_one_trashed(1) [OF trashed] by simp
    have k: "remote_failures (Inr email # ?rest) = remote_failures ?rest"
      "not_trashed (Inr email # ?rest) = not_trashed ?rest"
      using trashed(2) by (simp_all add: remote_failures_def not_trashed_def)
    have "Suc (length ids) - remote_failures ?rest = Suc (length ids - remote_failures ?rest)"
      using bound by simp
    then show ?thesis
      unfolding rs k using IH trash_one_trashed(2,3,4) [OF trashed]
      by (simp add: replicate_append_same)
  qed
qed

lemma deleteEmails_state:
  "successCount (snd (deleteEmails srv ids w))
     = successCount (trash_all srv ids \<lparr>world = w, trace = [], deleteErrors = [], successCount = 0\<rparr>)
   \<and> deleteErrors (snd (deleteEmails srv ids w))
     = deleteErrors (trash_all srv ids \<lparr>world = w, trace = [], deleteErrors = [], successCount = 0\<rparr>)
   \<and> pauses (trace (snd (deleteEmails srv ids w)))
     = pauses (trace (trash_all srv ids \<lparr>world = w, trace = [], deleteErrors = [], successCount = 0\<rparr>))
   \<and> (fst (deleteEmails srv ids w) \<noteq> None
        \<longleftrightarrow> 0 < length (deleteErrors
              (trash_all srv ids \<lparr>world = w, trace = [], deleteErrors = [], successCount = 0\<rparr>)))"
proof -
  have "pauses (map (\<lambda>errMsg. Printed (''- '' @ errMsg @ nl)) es) = []" for es :: "string list"
    by (induction es) (simp_all add: pauses_def)
  then show ?thesis
    by (simp add: deleteEmails_def Let_def pauses_append) (simp add: pauses_def)
qed

text \<open>One pause for each attempt whose remote call succeeded, and none for the others.\<close>

lemma deleteEmails_pauses:
  "pauses (trace (snd (deleteEmails srv ids w)))
     = replicate (length ids - remote_failures (trash_responses srv ids w)) 100"
  using trash_all_accounting [of srv ids "\<lparr>world = w, trace = [], deleteErrors = [], successCount = 0\<rparr>"]
    deleteEmails_state [of srv ids w]
  by (simp add: pauses_def)


text \<open>
  A batch of three: \<open>m1\<close> is moved to the trash, \<open>m2\<close> comes back without the label,
  the call for \<open>m3\<close> fails. And a batch of ten that all succeed prints its progress.
\<close>

lemma deleteEmails_example:
  "fst (deleteEmails (trash_table [(''m1'', [''INBOX'', ''TRASH'']), (''m2'', [''INBOX''])])
          [''m1'', ''m2'', ''m3''] ())
     = Some ''some deletions failed: 2 errors occurred''
   \<and> successCount (snd (deleteEmails (trash_table [(''m1'', [''INBOX'', ''TRASH'']), (''m2'', [''INBOX''])])
          [''m1'', ''m2'', ''m3''] ())) = 1
   \<and> deleteErrors (snd (deleteEmails (trash_table [(''m1'', [''INBOX'', ''TRASH'']), (''m2'', [''INBOX''])])
          [''m1'', ''m2'', ''m3''] ()))
     = [''message m2 was not moved to trash successfully'', ''failed to delete message m3: notFound'']"
  by (simp add: deleteEmails_def trash_one_def trash_table_def Let_def show_int_def show_nat.simps digit_def)

lemma deleteEmails_progress:
  "Printed (''Successfully deleted 10 emails...'' @ nl)
     \<in> set (trace (snd (deleteEmails
         (trash_table (map (\<lambda>i. (i, [''TRASH'']))
            [''a'', ''b'', ''c'', ''d'', ''e'', ''f'', ''g'', ''h'', ''i'', ''j'']))
         [''a'', ''b'', ''c'', ''d'', ''e'', ''f'', ''g'', ''h'', ''i'', ''j''] ())))"
  by (simp add: deleteEmails_def trash_one_def trash_table_def Let_def show_int_def show_nat.simps digit_def)


section \<open>Batch deletion: claims\<close>

text \<open>
  Claim C2. For a list of \<open>N\<close> message IDs, let \<open>rs\<close> be the responses of the service
  to the \<open>N\<close> trash requests, \<open>K\<close> the number of failed calls among them and \<open>J\<close> the
  number of successful calls whose labels lack \<open>TRASH\<close>. Then \<open>deleteEmails\<close> ends with
  \<open>successCount = N - K - J\<close> and \<open>K + J\<close> entries in \<open>deleteErrors\<close>, and returns an
  error exactly when \<open>K + J > 0\<close>.
\<close>

theorem deleteEmails_accounting:
  "(let rs = trash_responses srv ids w;
        K = remote_failures rs;
        J = not_trashed rs;
        out = deleteEmails srv ids w
    in length rs = length ids
       \<and> successCount (snd out) = int (length ids) - int K - int J
       \<and> length (deleteErrors (snd out)) = K + J
       \<and> (fst out \<noteq> None \<longleftrightarrow> 0 < K + J))"
  using trash_all_accounting [of srv ids "\<lparr>world = w, trace = [], deleteErrors = [], successCount = 0\<rparr>"]
    deleteEmails_state [of srv ids w]
  by (simp add: Let_def)

text \<open>
  Claim C3 says that the pause of 100 ms follows every attempt, also one that failed
  at the remote call. The code leaves the loop body with \<open>continue\<close> on that path
  (line 320), before the pause of line 343: a batch of one ID whose trash call fails
  makes the call and never pauses, while a call that succeeds without the \<open>TRASH\<close>
  label, the other way to fail, is followed by the pause.
\<close>

theorem no_pause_after_failed_call:
  "trash_responses (trash_table []) [''m1''] () = [Inl ''notFound'']
   \<and> TrashCall ''m1'' (Inl ''notFound'') \<in> set (trace (snd (deleteEmails (trash_table []) [''m1''] ())))
   \<and> pauses (trace (snd (deleteEmails (trash_table []) [''m1''] ()))) = []
   \<and> pauses (trace (snd (deleteEmails (trash_table [(''m1'', [''INBOX''])]) [''m1''] ()))) = [100]"
  by (simp add: deleteEmails_def trash_one_def trash_table_def pauses_def Let_def)

section \<open>The token: claims\<close>

text \<open>
  Claim C8 says that a failure to persist the new token is logged. On a machine
  without a token file whose disk cannot be written, the write fails, \<open>saveToken\<close>
  returns \<open>nil\<close> all the same, and the console holds the line of \<open>getTokenFromWeb\<close> and
  nothing else; \<open>getClient\<close> returns the client of the token \<open>T\<close>.
\<close>

theorem unlogged_write_failure_counterexample:
  "fst (WriteFile read_only_disk ''token.json'' ''T'' ()) = Some ''open token.json: read-only file system''
   \<and> saveToken read_only_disk ''token.json'' ''T'' () = (None, ())
   \<and> getClient read_only_disk ()
       = Some (Inr (Client ''T''), (),
               [Printed (''Please visit the following URL to authorize this application:'' @ nl)])"
  by (simp add: read_only_disk_def getClient_def saveToken_def tokenFromFile_def)

text \<open>
  Claim C8, amended. When no token can be read from the file and the authorisation on
  the web yields a token, \<open>getClient\<close> returns the client built from that token
  whatever becomes of saving it: neither a failure to encode the token nor a failure to
  write the file changes the result, and the console holds what \<open>getTokenFromWeb\<close> wrote.
  \<open>saveToken\<close> reports a failure to encode, which \<open>getClient\<close> drops, and reports
  nothing about the write.
\<close>

theorem getClient_survives_save_failure:
  assumes "tokenFromFile env ''token.json'' w = (Inl err, w1)"
    and "getTokenFromWeb env w1 = Some (Inr tok, w2, out)"
  shows "getClient env w = Some (Inr (Client tok), snd (saveToken env ''token.json'' tok w2), out)
       \<and> (\<forall>e. Marshal env tok = Inl e \<longrightarrow> saveToken env ''token.json'' tok w2 = (Some e, w2))
       \<and> (\<forall>data. Marshal env tok = Inr data
            \<longrightarrow> saveToken env ''token.json'' tok w2 = (None, snd (WriteFile env ''token.json'' data w2)))"
  using assms by (simp add: getClient_def saveToken_def)

theorem getClient_survives_save_failure_witness:
  "tokenFromFile read_only_disk ''token.json'' () = (Inl ''open token.json: no such file or directory'', ())
   \<and> getTokenFromWeb read_only_disk ()
       = Some (Inr ''T'', (), [Printed (''Please visit the following URL to authorize this application:'' @ nl)])
   \<and> fst (WriteFile read_only_disk ''token.json'' ''T'' ()) \<noteq> None
   \<and> map_option fst (getClient read_only_disk ()) = Some (Inr (Client ''T''))"
proof -
  have no_file: "tokenFromFile read_only_disk ''token.json'' ()
                = (Inl ''open token.json: no such file or directory'', ())"
    by (simp add: tokenFromFile_def read_only_disk_def)
  have web: "getTokenFromWeb read_only_disk ()
       = Some (Inr ''T'', (), [Printed (''Please visit the following URL to authorize this application:'' @ nl)])"
    by (simp add: read_only_disk_def)
  have disk: "fst (WriteFile read_only_disk ''token.json'' ''T'' ()) \<noteq> None"
    by (simp add: read_only_disk_def)
  from getClient_survives_save_failure [OF no_file web]
  have "map_option fst (getClient read_only_disk ()) = Some (Inr (Client ''T''))"
    by simp
  with no_file web disk show ?thesis by simp
qed


end
